theory Spec2Isabelle
  imports Main "HOL-Library.Multiset"
begin

section \<open>Room mapping page: data model\<close>

text \<open>
  The interfaces \<^verbatim>\<open>Guest\<close> and \<^verbatim>\<open>Room\<close> of
  \<^verbatim>\<open>room-mapping/page.tsx\<close>. The fields \<^verbatim>\<open>id\<close>, \<^verbatim>\<open>name\<close> and
  \<^verbatim>\<open>type\<close> carry a prefix, since the plain names are taken in HOL. A \<^verbatim>\<open>number\<close>
  is an \<^typ>\<open>int\<close>: the page only adds, subtracts and compares whole counts, and
  \<^verbatim>\<open>capacity - currentOccupancy\<close> may be negative.
\<close>

record Guest =
  guest_id :: string
  guest_name :: string
  occupancy :: int

record Room =
  room_id :: string
  hotel :: string
  room_type :: string
  capacity :: int
  assigned :: "Guest list"

text \<open>
  The warning is a template string with three interpolated values: the guest's name, the
  room's type and the room's capacity. The model keeps the three values.
\<close>

datatype Warning = CapacityWarning string string int

text \<open>
  The four \<^verbatim>\<open>useState\<close> cells of the component. The source of a drag is the literal
  \<^verbatim>\<open>'unassigned'\<close> or a room id, both strings, as in the source.
\<close>

record State =
  unassignedGuests :: "Guest list"
  rooms :: "Room list"
  draggedGuest :: "(Guest \<times> string) option"
  warning :: "Warning option"

text \<open>Reading a property of \<^verbatim>\<open>undefined\<close> throws a \<^verbatim>\<open>TypeError\<close>.\<close>

datatype error = TypeError

section \<open>Room mapping page: handlers\<close>

text \<open>\<^verbatim>\<open>Array.prototype.findIndex\<close>; \<open>None\<close> stands for the result \<^verbatim>\<open>-1\<close>.\<close>

primrec findIndex :: "('a \<Rightarrow> bool) \<Rightarrow> 'a list \<Rightarrow> nat option" where
  "findIndex P [] = None"
| "findIndex P (x # xs) = (if P x then Some 0 else map_option Suc (findIndex P xs))"

text \<open>\<^verbatim>\<open>room.assigned.reduce((sum, g) => sum + g.occupancy, 0)\<close>\<close>

definition currentOccupancy :: "Guest list \<Rightarrow> int" where
  "currentOccupancy gs = foldl (\<lambda>sum g. sum + occupancy g) 0 gs"

definition handleDragStart :: "Guest \<Rightarrow> string \<Rightarrow> State \<Rightarrow> State" where
  "handleDragStart guest source s = s\<lparr>draggedGuest := Some (guest, source), warning := None\<rparr>"

text \<open>
  \<^verbatim>\<open>handleDropToRoom\<close>. When no room has the target id, \<^verbatim>\<open>rooms[-1]\<close> is
  \<^verbatim>\<open>undefined\<close> and reading its \<^verbatim>\<open>assigned\<close> throws. The write to the target index
  uses \<^verbatim>\<open>targetRoom\<close>, the room read from \<^verbatim>\<open>rooms\<close> before the source room was
  filtered.
\<close>

definition handleDropToRoom :: "string \<Rightarrow> State \<Rightarrow> error + State" where
  "handleDropToRoom targetRoomId s =
    (case draggedGuest s of
       None \<Rightarrow> Inr s
     | Some (guest, source) \<Rightarrow>
        (case findIndex (\<lambda>r. room_id r = targetRoomId) (rooms s) of
           None \<Rightarrow> Inl TypeError
         | Some targetRoomIndex \<Rightarrow>
            (let targetRoom = rooms s ! targetRoomIndex in
             if currentOccupancy (assigned targetRoom) + occupancy guest > capacity targetRoom
             then Inr (s\<lparr>warning := Some (CapacityWarning (guest_name guest)
                                          (room_type targetRoom) (capacity targetRoom)),
                         draggedGuest := None\<rparr>)
             else
               (let newRooms = rooms s;
                    newRooms1 =
                      (if source \<noteq> ''unassigned'' then
                         (case findIndex (\<lambda>r. room_id r = source) newRooms of
                            None \<Rightarrow> newRooms
                          | Some sourceRoomIndex \<Rightarrow>
                              newRooms[sourceRoomIndex := (newRooms ! sourceRoomIndex)
                                \<lparr>assigned := filter (\<lambda>g. guest_id g \<noteq> guest_id guest)
                                    (assigned (newRooms ! sourceRoomIndex))\<rparr>])
                       else newRooms);
                    unassigned1 =
                      (if source \<noteq> ''unassigned'' then unassignedGuests s
                       else filter (\<lambda>g. guest_id g \<noteq> guest_id guest) (unassignedGuests s));
                    newRooms2 = newRooms1[targetRoomIndex :=
                      targetRoom\<lparr>assigned := assigned targetRoom @ [guest]\<rparr>]
                in Inr (s\<lparr>rooms := newRooms2, unassignedGuests := unassigned1,
                           draggedGuest := None, warning := None\<rparr>)))))"

text \<open>
  \<^verbatim>\<open>handleDropToUnassigned\<close>. The branch that moves the guest does not clear
  \<^verbatim>\<open>draggedGuest\<close>.
\<close>

definition handleDropToUnassigned :: "State \<Rightarrow> State" where
  "handleDropToUnassigned s =
    (case draggedGuest s of
       None \<Rightarrow> s
     | Some (guest, source) \<Rightarrow>
        if source = ''unassigned'' then s\<lparr>draggedGuest := None\<rparr>
        else s\<lparr>rooms := map (\<lambda>room.
                      if room_id room = source
                      then room\<lparr>assigned := filter (\<lambda>g. guest_id g \<noteq> guest_id guest)
                                                 (assigned room)\<rparr>
                      else room) (rooms s),
               unassignedGuests := unassignedGuests s @ [guest],
               warning := None\<rparr>)"

text \<open>
  The inner \<^verbatim>\<open>remainingGuests.forEach\<close> of \<^verbatim>\<open>handleAutoAssign\<close>: its mutable
  variables are \<^verbatim>\<open>roomSpace\<close>, \<^verbatim>\<open>guestsToAdd\<close> and \<^verbatim>\<open>nextRemaining\<close>.
\<close>

definition scan_step :: "int \<times> Guest list \<times> Guest list \<Rightarrow> Guest \<Rightarrow> int \<times> Guest list \<times> Guest list" where
  "scan_step v guest =
    (case v of (roomSpace, guestsToAdd, nextRemaining) \<Rightarrow>
       if occupancy guest \<le> roomSpace
       then (roomSpace - occupancy guest, guestsToAdd @ [guest], nextRemaining)
       else (roomSpace, guestsToAdd, nextRemaining @ [guest]))"

text \<open>
  The outer \<^verbatim>\<open>newRooms.forEach\<close>: one visit per room, in list order, threading
  \<^verbatim>\<open>remainingGuests\<close>. The result is the new room list and the guests left over.
\<close>

fun autoAssign_rooms :: "Room list \<Rightarrow> Guest list \<Rightarrow> Room list \<times> Guest list" where
  "autoAssign_rooms [] remainingGuests = ([], remainingGuests)"
| "autoAssign_rooms (room # rs) remainingGuests =
    (let roomSpace = capacity room - currentOccupancy (assigned room) in
     if roomSpace > 0 then
       (case foldl scan_step (roomSpace, [], []) remainingGuests of
          (roomSpace', guestsToAdd, nextRemaining) \<Rightarrow>
            (case autoAssign_rooms rs nextRemaining of
               (rs', remaining') \<Rightarrow>
                 ((if guestsToAdd \<noteq> []
                   then room\<lparr>assigned := assigned room @ guestsToAdd\<rparr>
                   else room) # rs', remaining')))
     else
       (case autoAssign_rooms rs remainingGuests of
          (rs', remaining') \<Rightarrow> (room # rs', remaining')))"

definition handleAutoAssign :: "State \<Rightarrow> State" where
  "handleAutoAssign s =
    (case autoAssign_rooms (rooms s) (unassignedGuests s) of
       (newRooms, remainingGuests) \<Rightarrow>
         s\<lparr>rooms := newRooms, unassignedGuests := remainingGuests,
           warning := (if remainingGuests = [] then None else warning s)\<rparr>)"

text \<open>
  \<^verbatim>\<open>handleReset\<close>: \<^verbatim>\<open>allGuests\<close> starts as a copy of the pool and every room
  pushes its assigned guests onto it, in room order.
\<close>

definition handleReset :: "State \<Rightarrow> State" where
  "handleReset s =
    s\<lparr>rooms := map (\<lambda>room. room\<lparr>assigned := []\<rparr>) (rooms s),
      unassignedGuests := foldl (\<lambda>allGuests room. allGuests @ assigned room)
                            (unassignedGuests s) (rooms s),
      warning := None\<rparr>"

section \<open>The engine operations\<close>

text \<open>
  The page offers a move as a drag followed by a drop. A guest card calls
  \<^verbatim>\<open>handleDragStart(guest, 'unassigned')\<close> in the pool and
  \<^verbatim>\<open>handleDragStart(guest, room.id)\<close> in a room, so an operation names the guest and
  the place it is dragged from.
\<close>

definition assign :: "Guest \<Rightarrow> string \<Rightarrow> string \<Rightarrow> State \<Rightarrow> error + State" where
  "assign guest source targetRoomId s = handleDropToRoom targetRoomId (handleDragStart guest source s)"

definition unassign :: "Guest \<Rightarrow> string \<Rightarrow> State \<Rightarrow> State" where
  "unassign guest source s = handleDropToUnassigned (handleDragStart guest source s)"

definition autoAssign :: "State \<Rightarrow> State" where
  "autoAssign s = handleAutoAssign s"

definition reset :: "State \<Rightarrow> State" where
  "reset s = handleReset s"

text \<open>The place a guest card is rendered at, which is where a drag of it starts.\<close>

definition located :: "Guest \<Rightarrow> string \<Rightarrow> State \<Rightarrow> bool" where
  "located guest source s \<longleftrightarrow>
     (if source = ''unassigned'' then guest \<in> set (unassignedGuests s)
      else \<exists>room \<in> set (rooms s). room_id room = source \<and> guest \<in> set (assigned room))"

text \<open>
  The initial state of the page when nothing was saved: the four guests of the
  \<^verbatim>\<open>useState\<close> initialiser and the two fallback rooms.
\<close>

definition rajesh :: Guest where
  "rajesh = \<lparr>guest_id = ''1'', guest_name = ''Rajesh Kumar'', occupancy = 2\<rparr>"

definition priya :: Guest where
  "priya = \<lparr>guest_id = ''2'', guest_name = ''Priya Sharma'', occupancy = 1\<rparr>"

definition amit :: Guest where
  "amit = \<lparr>guest_id = ''3'', guest_name = ''Amit Patel'', occupancy = 3\<rparr>"

definition sneha :: Guest where
  "sneha = \<lparr>guest_id = ''4'', guest_name = ''Sneha Reddy'', occupancy = 2\<rparr>"

definition deluxe :: Room where
  "deluxe = \<lparr>room_id = ''r1'', hotel = ''The Grand Palace'', room_type = ''Deluxe Room'',
              capacity = 2, assigned = []\<rparr>"

definition suite :: Room where
  "suite = \<lparr>room_id = ''r2'', hotel = ''The Grand Palace'', room_type = ''Premium Suite'',
             capacity = 3, assigned = []\<rparr>"

definition demo_state :: State where
  "demo_state = \<lparr>unassignedGuests = [rajesh, priya, amit, sneha], rooms = [deluxe, suite],
                  draggedGuest = None, warning = None\<rparr>"

section \<open>Sequences of operations\<close>

datatype Op = Assign Guest string string | Unassign Guest string | AutoAssign | Reset

fun apply_op :: "Op \<Rightarrow> State \<Rightarrow> error + State" where
  "apply_op (Assign guest source targetRoomId) s = assign guest source targetRoomId s"
| "apply_op (Unassign guest source) s = Inr (unassign guest source s)"
| "apply_op AutoAssign s = Inr (autoAssign s)"
| "apply_op Reset s = Inr (reset s)"

text \<open>
  The states after each call of a sequence, in order. A call that throws ends the
  sequence, as the exception ends the handler without a state update.
\<close>

fun trace :: "Op list \<Rightarrow> State \<Rightarrow> State list" where
  "trace [] s = []"
| "trace (op # ops) s =
    (case apply_op op s of Inl e \<Rightarrow> [] | Inr s' \<Rightarrow> s' # trace ops s')"

section \<open>Invariants of the data model\<close>

definition all_guests :: "State \<Rightarrow> Guest list" where
  "all_guests s = unassignedGuests s @ concat (map assigned (rooms s))"

text \<open>Every room holds at most its capacity.\<close>

definition capacity_ok :: "State \<Rightarrow> bool" where
  "capacity_ok s \<longleftrightarrow> (\<forall>room \<in> set (rooms s). currentOccupancy (assigned room) \<le> capacity room)"

text \<open>The occupancy of a guest is a positive count.\<close>

definition guests_ok :: "State \<Rightarrow> bool" where
  "guests_ok s \<longleftrightarrow> (\<forall>g \<in> set (all_guests s). 0 < occupancy g)"

fun op_guest_ok :: "Op \<Rightarrow> bool" where
  "op_guest_ok (Assign guest source targetRoomId) \<longleftrightarrow> 0 < occupancy guest"
| "op_guest_ok (Unassign guest source) \<longleftrightarrow> 0 < occupancy guest"
| "op_guest_ok AutoAssign \<longleftrightarrow> True"
| "op_guest_ok Reset \<longleftrightarrow> True"

fun op_target_ok :: "State \<Rightarrow> Op \<Rightarrow> bool" where
  "op_target_ok s (Assign guest source targetRoomId) \<longleftrightarrow> targetRoomId \<in> room_id ` set (rooms s)"
| "op_target_ok s (Unassign guest source) \<longleftrightarrow> True"
| "op_target_ok s AutoAssign \<longleftrightarrow> True"
| "op_target_ok s Reset \<longleftrightarrow> True"

text \<open>The fields of a room that describe it, as opposed to its assigned list.\<close>

definition room_frame :: "Room \<Rightarrow> string \<times> string \<times> string \<times> int" where
  "room_frame room = (room_id room, hotel room, room_type room, capacity room)"

section \<open>First fit in order, as the specification words it\<close>

text \<open>
  For one room: scan the guests in order, add a guest when its occupancy is at most the
  room's remaining space and lower the space by it, carry the others forward. The result
  is the guests added and the guests carried forward.
\<close>

fun first_fit :: "int \<Rightarrow> Guest list \<Rightarrow> Guest list \<times> Guest list" where
  "first_fit roomSpace [] = ([], [])"
| "first_fit roomSpace (g # gs) =
    (if occupancy g \<le> roomSpace
     then (case first_fit (roomSpace - occupancy g) gs of (added, carried) \<Rightarrow> (g # added, carried))
     else (case first_fit roomSpace gs of (added, carried) \<Rightarrow> (added, g # carried)))"

text \<open>Each room once, in list order; the guests carried forward go to the next room.\<close>

fun first_fit_in_order :: "Room list \<Rightarrow> Guest list \<Rightarrow> Room list \<times> Guest list" where
  "first_fit_in_order [] pool = ([], pool)"
| "first_fit_in_order (room # rs) pool =
    (case first_fit (capacity room - sum_list (map occupancy (assigned room))) pool of
       (added, carried) \<Rightarrow>
         (case first_fit_in_order rs carried of
            (rs', pool') \<Rightarrow> (room\<lparr>assigned := assigned room @ added\<rparr> # rs', pool')))"

section \<open>Guest management page\<close>

text \<open>
  The interface \<^verbatim>\<open>Guest\<close> of \<^verbatim>\<open>manage-guests/page.tsx\<close>, named apart from the
  guest of the room mapping page.
\<close>

datatype GuestType = adult | child

record DirectoryGuest =
  ID :: string
  Name :: string
  Age :: int
  Type :: GuestType
  Phone :: string
  Email :: string
  EventID :: string
  FamilyID :: string
  ArrivalDate :: string
  DepartureDate :: string

text \<open>\<^verbatim>\<open>guest.FamilyID || guest.ID\<close>: the empty string is the falsy string.\<close>

definition group_key :: "DirectoryGuest \<Rightarrow> string" where
  "group_key guest = (if FamilyID guest \<noteq> [] then FamilyID guest else ID guest)"

text \<open>
  The accumulator of the \<^verbatim>\<open>reduce\<close> is an object literal \<^verbatim>\<open>{}\<close>: its own
  properties, here in insertion order, and behind them the properties it inherits from
  \<^verbatim>\<open>Object.prototype\<close>. A read \<^verbatim>\<open>acc[key]\<close> of a name that is not an own property
  finds the inherited value.
\<close>

definition object_prototype_names :: "string list" where
  "object_prototype_names =
    [''constructor'', ''hasOwnProperty'', ''isPrototypeOf'', ''propertyIsEnumerable'',
     ''toLocaleString'', ''toString'', ''valueOf'', ''__defineGetter__'', ''__defineSetter__'',
     ''__lookupGetter__'', ''__lookupSetter__'', ''__proto__'']"

text \<open>
  One step of the \<^verbatim>\<open>reduce\<close>. An own property holds an array, which is truthy, and
  the guest is pushed onto it. An inherited value is a function or an object, truthy as
  well, so no array is stored, and calling its missing \<^verbatim>\<open>push\<close> throws. Otherwise the
  read gives \<^verbatim>\<open>undefined\<close> and a new array is stored under the key.
\<close>

definition group_step :: "(string \<times> DirectoryGuest list) list \<Rightarrow> DirectoryGuest
    \<Rightarrow> error + (string \<times> DirectoryGuest list) list" where
  "group_step acc guest =
    (let key = group_key guest in
     case map_of acc key of
       Some members \<Rightarrow> Inr (map (\<lambda>(k, v). if k = key then (k, v @ [guest]) else (k, v)) acc)
     | None \<Rightarrow>
         if key \<in> set object_prototype_names then Inl TypeError
         else Inr (acc @ [(key, [guest])]))"

fun reduce_groups :: "(string \<times> DirectoryGuest list) list \<Rightarrow> DirectoryGuest list
    \<Rightarrow> error + (string \<times> DirectoryGuest list) list" where
  "reduce_groups acc [] = Inr acc"
| "reduce_groups acc (guest # guests) =
    (case group_step acc guest of Inl e \<Rightarrow> Inl e | Inr acc' \<Rightarrow> reduce_groups acc' guests)"

definition groupedGuests :: "DirectoryGuest list \<Rightarrow> error + (string \<times> DirectoryGuest list) list" where
  "groupedGuests guests = reduce_groups [] guests"

text \<open>
  \<^verbatim>\<open>Object.values\<close> lists the own properties whose names are array indices first,
  in ascending numeric order, and then the others in insertion order. An array index is
  the canonical decimal form of a whole number below \<open>2^32 - 1\<close>.
\<close>

definition dec_value :: "string \<Rightarrow> int" where
  "dec_value k = foldl (\<lambda>n c. 10 * n + (of_char c - 48)) 0 k"

definition is_array_index :: "string \<Rightarrow> bool" where
  "is_array_index k \<longleftrightarrow>
     k \<noteq> [] \<and> list_all (\<lambda>c. c \<in> set ''0123456789'') k \<and>
     (k = ''0'' \<or> hd k \<noteq> CHR ''0'') \<and> dec_value k < 2 ^ 32 - 1"

definition object_values :: "(string \<times> 'v) list \<Rightarrow> 'v list" where
  "object_values acc =
     map snd (sort_key (\<lambda>p. dec_value (fst p)) (filter (\<lambda>p. is_array_index (fst p)) acc)
              @ filter (\<lambda>p. \<not> is_array_index (fst p)) acc)"

definition guestGroups :: "DirectoryGuest list \<Rightarrow> error + DirectoryGuest list list" where
  "guestGroups guests =
    (case groupedGuests guests of Inl e \<Rightarrow> Inl e | Inr acc \<Rightarrow> Inr (object_values acc))"

text \<open>
  The row of one group: \<^verbatim>\<open>group[0]\<close> is the head and \<^verbatim>\<open>group.slice(1)\<close> the other
  members. On an empty group the head is \<^verbatim>\<open>undefined\<close> and reading its \<^verbatim>\<open>ID\<close>
  throws.
\<close>

definition group_row :: "DirectoryGuest list \<Rightarrow> error + DirectoryGuest \<times> DirectoryGuest list" where
  "group_row members =
    (case members of [] \<Rightarrow> Inl TypeError | headGuest # otherMembers \<Rightarrow> Inr (headGuest, otherMembers))"

text \<open>
  The accumulator holds the groups of the guests seen so far: one own property per key,
  and under it the guests of that key in the order seen.
\<close>

definition grouped :: "(string \<times> DirectoryGuest list) list \<Rightarrow> DirectoryGuest list \<Rightarrow> bool" where
  "grouped acc seen \<longleftrightarrow>
     distinct (map fst acc) \<and> fst ` set acc = group_key ` set seen \<and>
     (\<forall>(k, members) \<in> set acc. members = filter (\<lambda>g. group_key g = k) seen)"

section \<open>Auxiliary facts\<close>

lemma currentOccupancy_foldl:
  "foldl (\<lambda>sum g. sum + occupancy g) a gs = a + sum_list (map occupancy gs)"
  by (induction gs arbitrary: a) auto

lemma currentOccupancy_sum: "currentOccupancy gs = sum_list (map occupancy gs)"
  by (simp add: currentOccupancy_def currentOccupancy_foldl)

lemma findIndex_Some:
  "findIndex P xs = Some i \<Longrightarrow> i < length xs \<and> P (xs ! i) \<and> (\<forall>j<i. \<not> P (xs ! j))"
proof (induction xs arbitrary: i)
  case Nil
  then show ?case by simp
next
  case (Cons x xs)
  show ?case
  proof (cases "P x")
    case True
    with Cons.prems show ?thesis by simp
  next
    case False
    with Cons.prems obtain k where k: "findIndex P xs = Some k" "i = Suc k"
      by auto
    from Cons.IH [OF k(1)] False k(2) show ?thesis
      by (auto simp: nth_Cons split: nat.splits)
  qed
qed

lemma findIndex_None: "findIndex P xs = None \<longleftrightarrow> (\<forall>x \<in> set xs. \<not> P x)"
  by (induction xs) auto

lemma scan_foldl:
  "foldl scan_step (sp, A, N) gs =
     (sp - sum_list (map occupancy (fst (first_fit sp gs))),
      A @ fst (first_fit sp gs), N @ snd (first_fit sp gs))"
  by (induction gs arbitrary: sp A N) (simp_all add: scan_step_def case_prod_beta)

lemma first_fit_sum:
  "0 \<le> sp \<Longrightarrow> sum_list (map occupancy (fst (first_fit sp gs))) \<le> sp"
proof (induction gs arbitrary: sp)
  case Nil
  then show ?case by simp
next
  case (Cons g gs)
  show ?case
  proof (cases "occupancy g \<le> sp")
    case True
    then have "0 \<le> sp - occupancy g" by simp
    from Cons.IH [OF this] True show ?thesis
      by (simp add: case_prod_beta)
  next
    case False
    with Cons.IH [OF Cons.prems] show ?thesis
      by (simp add: case_prod_beta)
  qed
qed

lemma first_fit_mset:
  "mset (fst (first_fit sp gs)) + mset (snd (first_fit sp gs)) = mset gs"
  by (induction gs arbitrary: sp) (simp_all add: case_prod_beta)

lemma first_fit_set:
  "set (fst (first_fit sp gs)) \<union> set (snd (first_fit sp gs)) = set gs"
proof -
  have "set_mset (mset (fst (first_fit sp gs)) + mset (snd (first_fit sp gs))) = set_mset (mset gs)"
    by (simp only: first_fit_mset)
  then show ?thesis by simp
qed

lemma first_fit_none:
  "sp \<le> 0 \<Longrightarrow> \<forall>g \<in> set gs. 0 < occupancy g \<Longrightarrow> first_fit sp gs = ([], gs)"
  by (induction gs) auto

lemma autoAssign_rooms_first_fit:
  "\<forall>g \<in> set pool. 0 < occupancy g \<Longrightarrow> autoAssign_rooms rs pool = first_fit_in_order rs pool"
proof (induction rs arbitrary: pool)
  case Nil
  then show ?case by simp
next
  case (Cons room rs)
  let ?sp = "capacity room - sum_list (map occupancy (assigned room))"
  show ?case
  proof (cases "0 < ?sp")
    case True
    have "\<forall>g \<in> set (snd (first_fit ?sp pool)). 0 < occupancy g"
      using Cons.prems first_fit_set [of ?sp pool] by blast
    from Cons.IH [OF this] True show ?thesis
      by (cases "fst (first_fit ?sp pool) = []")
         (simp_all add: currentOccupancy_sum scan_foldl case_prod_beta Let_def)
  next
    case False
    then have "first_fit ?sp pool = ([], pool)"
      using Cons.prems by (simp add: first_fit_none)
    with False Cons.IH [OF Cons.prems] show ?thesis
      by (simp add: currentOccupancy_sum case_prod_beta)
  qed
qed

lemma first_fit_in_order_frame:
  "map room_frame (fst (first_fit_in_order rs pool)) = map room_frame rs"
  by (induction rs arbitrary: pool) (simp_all add: room_frame_def case_prod_beta)

lemma autoAssign_rooms_frame:
  "map room_frame (fst (autoAssign_rooms rs pool)) = map room_frame rs"
  by (induction rs arbitrary: pool) (simp_all add: room_frame_def Let_def case_prod_beta)

lemma autoAssign_rooms_mset:
  "mset (snd (autoAssign_rooms rs pool)) + mset (concat (map assigned (fst (autoAssign_rooms rs pool))))
     = mset pool + mset (concat (map assigned rs))"
proof (induction rs arbitrary: pool)
  case Nil
  then show ?case by simp
next
  case (Cons room rs)
  let ?sp = "capacity room - currentOccupancy (assigned room)"
  let ?added = "fst (first_fit ?sp pool)"
  let ?carried = "snd (first_fit ?sp pool)"
  show ?case
  proof (cases "0 < ?sp")
    case True
    have split: "mset pool = mset ?added + mset ?carried"
      by (simp only: first_fit_mset)
    have "mset (snd (autoAssign_rooms (room # rs) pool))
            + mset (concat (map assigned (fst (autoAssign_rooms (room # rs) pool))))
          = mset (assigned room) + mset ?added
            + (mset (snd (autoAssign_rooms rs ?carried))
               + mset (concat (map assigned (fst (autoAssign_rooms rs ?carried)))))"
      using True
      by (cases "?added = []") (simp_all add: scan_foldl case_prod_beta Let_def)
    also have "\<dots> = mset (assigned room) + mset ?added
                       + (mset ?carried + mset (concat (map assigned rs)))"
      by (simp only: Cons.IH)
    finally show ?thesis
      by (simp add: split)
  next
    case False
    with Cons.IH [of pool] show ?thesis
      by (simp add: case_prod_beta)
  qed
qed

lemma autoAssign_rooms_capacity:
  "\<forall>room \<in> set rs. currentOccupancy (assigned room) \<le> capacity room \<Longrightarrow>
   \<forall>room \<in> set (fst (autoAssign_rooms rs pool)). currentOccupancy (assigned room) \<le> capacity room"
proof (induction rs arbitrary: pool)
  case Nil
  then show ?case by simp
next
  case (Cons room rs)
  let ?sp = "capacity room - currentOccupancy (assigned room)"
  from Cons.prems have rest: "\<forall>r \<in> set rs. currentOccupancy (assigned r) \<le> capacity r"
    and here: "currentOccupancy (assigned room) \<le> capacity room"
    by simp_all
  show ?case
  proof (cases "0 < ?sp")
    case True
    then have "sum_list (map occupancy (fst (first_fit ?sp pool))) \<le> ?sp"
      by (simp add: first_fit_sum)
    with Cons.IH [OF rest, of "snd (first_fit ?sp pool)"] True here show ?thesis
      by (simp add: scan_foldl currentOccupancy_sum case_prod_beta Let_def)
  next
    case False
    with Cons.IH [OF rest, of pool] here show ?thesis
      by (simp add: case_prod_beta)
  qed
qed

subsection \<open>What a drop onto a room does\<close>

lemma assign_no_target:
  "findIndex (\<lambda>r. room_id r = targetRoomId) (rooms s) = None \<Longrightarrow>
   assign guest source targetRoomId s = Inl TypeError"
  by (simp add: assign_def handleDropToRoom_def handleDragStart_def)

lemma assign_rejected:
  assumes "findIndex (\<lambda>r. room_id r = targetRoomId) (rooms s) = Some i"
    and "currentOccupancy (assigned (rooms s ! i)) + occupancy guest > capacity (rooms s ! i)"
  shows "assign guest source targetRoomId s =
           Inr (s\<lparr>draggedGuest := None,
                  warning := Some (CapacityWarning (guest_name guest)
                    (room_type (rooms s ! i)) (capacity (rooms s ! i)))\<rparr>)"
  using assms by (simp add: assign_def handleDropToRoom_def handleDragStart_def Let_def)

lemma assign_from_pool:
  assumes "findIndex (\<lambda>r. room_id r = targetRoomId) (rooms s) = Some i"
    and "\<not> currentOccupancy (assigned (rooms s ! i)) + occupancy guest > capacity (rooms s ! i)"
  shows "assign guest ''unassigned'' targetRoomId s =
           Inr (s\<lparr>unassignedGuests := filter (\<lambda>g. guest_id g \<noteq> guest_id guest) (unassignedGuests s),
                  rooms := (rooms s)[i := (rooms s ! i)\<lparr>assigned := assigned (rooms s ! i) @ [guest]\<rparr>],
                  draggedGuest := None, warning := None\<rparr>)"
  using assms by (simp add: assign_def handleDropToRoom_def handleDragStart_def Let_def)

lemma assign_from_room:
  assumes "findIndex (\<lambda>r. room_id r = targetRoomId) (rooms s) = Some i"
    and "\<not> currentOccupancy (assigned (rooms s ! i)) + occupancy guest > capacity (rooms s ! i)"
    and "source \<noteq> ''unassigned''"
    and "findIndex (\<lambda>r. room_id r = source) (rooms s) = Some j"
  shows "assign guest source targetRoomId s =
           Inr (s\<lparr>rooms := (rooms s)
                    [j := (rooms s ! j)\<lparr>assigned := filter (\<lambda>g. guest_id g \<noteq> guest_id guest)
                                                      (assigned (rooms s ! j))\<rparr>,
                     i := (rooms s ! i)\<lparr>assigned := assigned (rooms s ! i) @ [guest]\<rparr>],
                  draggedGuest := None, warning := None\<rparr>)"
  using assms by (simp add: assign_def handleDropToRoom_def handleDragStart_def Let_def)

lemma assign_from_nowhere:
  assumes "findIndex (\<lambda>r. room_id r = targetRoomId) (rooms s) = Some i"
    and "\<not> currentOccupancy (assigned (rooms s ! i)) + occupancy guest > capacity (rooms s ! i)"
    and "source \<noteq> ''unassigned''"
    and "findIndex (\<lambda>r. room_id r = source) (rooms s) = None"
  shows "assign guest source targetRoomId s =
           Inr (s\<lparr>rooms := (rooms s)
                    [i := (rooms s ! i)\<lparr>assigned := assigned (rooms s ! i) @ [guest]\<rparr>],
                  draggedGuest := None, warning := None\<rparr>)"
  using assms by (simp add: assign_def handleDropToRoom_def handleDragStart_def Let_def)

text \<open>Every room after a drop is an old room, the target with the guest appended, or an
  old room with the guest filtered out.\<close>

lemma assign_rooms_cases:
  assumes "assign guest source targetRoomId s = Inr s'" and "room \<in> set (rooms s')"
  shows "room \<in> set (rooms s)
       \<or> (\<exists>r \<in> set (rooms s). room = r\<lparr>assigned := assigned r @ [guest]\<rparr>
             \<and> currentOccupancy (assigned r) + occupancy guest \<le> capacity r)
       \<or> (\<exists>r \<in> set (rooms s). room = r\<lparr>assigned := filter (\<lambda>g. guest_id g \<noteq> guest_id guest) (assigned r)\<rparr>)"
proof (cases "findIndex (\<lambda>r. room_id r = targetRoomId) (rooms s)")
  case None
  with assms(1) show ?thesis by (simp add: assign_no_target)
next
  case (Some i)
  then have i: "i < length (rooms s)" by (simp add: findIndex_Some)
  let ?t = "rooms s ! i"
  show ?thesis
  proof (cases "currentOccupancy (assigned ?t) + occupancy guest > capacity ?t")
    case True
    from assign_rejected [OF Some True, of source] assms show ?thesis by auto
  next
    case fits: False
    let ?t' = "?t\<lparr>assigned := assigned ?t @ [guest]\<rparr>"
    have t': "\<exists>r \<in> set (rooms s). ?t' = r\<lparr>assigned := assigned r @ [guest]\<rparr>
             \<and> currentOccupancy (assigned r) + occupancy guest \<le> capacity r"
      using i fits by (intro bexI [of _ ?t]) simp_all
    consider (pool) "source = ''unassigned''"
      | (room) j where "source \<noteq> ''unassigned''" "findIndex (\<lambda>r. room_id r = source) (rooms s) = Some j"
      | (nowhere) "source \<noteq> ''unassigned''" "findIndex (\<lambda>r. room_id r = source) (rooms s) = None"
      by (cases "findIndex (\<lambda>r. room_id r = source) (rooms s)") auto
    then show ?thesis
    proof cases
      case pool
      with assign_from_pool [OF Some fits] assms(1)
      have "rooms s' = (rooms s)[i := ?t']" by auto
      with assms(2) have "room = ?t' \<or> room \<in> set (rooms s)"
        using set_update_subset_insert [of "rooms s" i ?t'] by auto
      with t' show ?thesis by blast
    next
      case (room j)
      let ?f = "(rooms s ! j)\<lparr>assigned := filter (\<lambda>g. guest_id g \<noteq> guest_id guest) (assigned (rooms s ! j))\<rparr>"
      from room(2) have j: "j < length (rooms s)" by (simp add: findIndex_Some)
      from assign_from_room [OF Some fits room] assms(1)
      have "rooms s' = (rooms s)[j := ?f, i := ?t']" by auto
      with assms(2) have "room = ?t' \<or> room \<in> set ((rooms s)[j := ?f])"
        using set_update_subset_insert [of "(rooms s)[j := ?f]" i ?t'] by auto
      then have "room = ?t' \<or> room = ?f \<or> room \<in> set (rooms s)"
        using set_update_subset_insert [of "rooms s" j ?f] by auto
      moreover have "rooms s ! j \<in> set (rooms s)" using j by simp
      ultimately show ?thesis using t' by blast
    next
      case nowhere
      with assign_from_nowhere [OF Some fits nowhere] assms(1)
      have "rooms s' = (rooms s)[i := ?t']" by auto
      with assms(2) have "room = ?t' \<or> room \<in> set (rooms s)"
        using set_update_subset_insert [of "rooms s" i ?t'] by auto
      with t' show ?thesis by blast
    qed
  qed
qed

lemma assign_pool_subset:
  assumes "assign guest source targetRoomId s = Inr s'"
  shows "set (unassignedGuests s') \<subseteq> set (unassignedGuests s)"
proof (cases "findIndex (\<lambda>r. room_id r = targetRoomId) (rooms s)")
  case None
  with assms(1) show ?thesis by (simp add: assign_no_target)
next
  case (Some i)
  with assms show ?thesis
    by (auto simp: assign_def handleDropToRoom_def handleDragStart_def Let_def
             split: if_splits option.splits)
qed

lemma assign_frame:
  assumes "assign guest source targetRoomId s = Inr s'"
  shows "map room_frame (rooms s') = map room_frame (rooms s)"
proof (cases "findIndex (\<lambda>r. room_id r = targetRoomId) (rooms s)")
  case None
  with assms(1) show ?thesis by (simp add: assign_no_target)
next
  case (Some i)
  have upd: "map room_frame (xs[k := (xs ! k)\<lparr>assigned := a\<rparr>]) = map room_frame xs" for xs k a
  proof (cases "k < length xs")
    case True
    then show ?thesis
      by (simp add: map_update room_frame_def list_update_same_conv)
  next
    case False
    then have "length xs \<le> k" by simp
    then show ?thesis by (simp only: list_update_beyond)
  qed
  have upd2: "map room_frame (xs[k := (xs ! k)\<lparr>assigned := b\<rparr>, l := (xs ! l)\<lparr>assigned := a\<rparr>])
                = map room_frame xs"
    for xs k l a b
  proof -
    have "map room_frame (xs[k := (xs ! k)\<lparr>assigned := b\<rparr>, l := (xs ! l)\<lparr>assigned := a\<rparr>])
            = (map room_frame (xs[k := (xs ! k)\<lparr>assigned := b\<rparr>]))[l := room_frame (xs ! l)]"
      by (simp add: map_update room_frame_def)
    also have "\<dots> = (map room_frame xs)[l := room_frame (xs ! l)]"
      by (simp only: upd)
    also have "\<dots> = map room_frame (xs[l := (xs ! l)\<lparr>assigned := a\<rparr>])"
      by (simp add: map_update room_frame_def)
    finally show ?thesis
      by (simp only: upd)
  qed
  from Some assms show ?thesis
    by (auto simp: assign_def handleDropToRoom_def handleDragStart_def Let_def upd upd2
             split: if_splits option.splits)
qed

subsection \<open>The other three operations\<close>

lemma unassign_from_pool:
  "unassign guest ''unassigned'' s = s\<lparr>draggedGuest := None, warning := None\<rparr>"
  by (simp add: unassign_def handleDropToUnassigned_def handleDragStart_def)

lemma unassign_from_room:
  "source \<noteq> ''unassigned'' \<Longrightarrow>
   unassign guest source s =
     s\<lparr>rooms := map (\<lambda>room. if room_id room = source
                     then room\<lparr>assigned := filter (\<lambda>g. guest_id g \<noteq> guest_id guest) (assigned room)\<rparr>
                     else room) (rooms s),
       unassignedGuests := unassignedGuests s @ [guest],
       draggedGuest := Some (guest, source), warning := None\<rparr>"
  by (simp add: unassign_def handleDropToUnassigned_def handleDragStart_def)

lemma unassign_frame: "map room_frame (rooms (unassign guest source s)) = map room_frame (rooms s)"
  by (cases "source = ''unassigned''")
     (simp_all add: unassign_from_pool unassign_from_room room_frame_def)

lemma autoAssign_frame: "map room_frame (rooms (autoAssign s)) = map room_frame (rooms s)"
  using autoAssign_rooms_frame [of "rooms s" "unassignedGuests s"]
  by (simp add: autoAssign_def handleAutoAssign_def case_prod_beta)

lemma reset_pool_foldl:
  "foldl (\<lambda>allGuests room. allGuests @ assigned room) acc rs = acc @ concat (map assigned rs)"
  by (induction rs arbitrary: acc) simp_all

lemma reset_eq:
  "reset s = s\<lparr>rooms := map (\<lambda>room. room\<lparr>assigned := []\<rparr>) (rooms s),
              unassignedGuests := unassignedGuests s @ concat (map assigned (rooms s)),
              warning := None\<rparr>"
  by (simp add: reset_def handleReset_def reset_pool_foldl)

lemma reset_frame: "map room_frame (rooms (reset s)) = map room_frame (rooms s)"
  by (simp add: reset_eq room_frame_def)

lemma room_frame_ids: "map room_frame rs' = map room_frame rs \<Longrightarrow> map room_id rs' = map room_id rs"
proof -
  assume "map room_frame rs' = map room_frame rs"
  then have "map fst (map room_frame rs') = map fst (map room_frame rs)" by simp
  then show ?thesis by (simp add: room_frame_def comp_def)
qed

subsection \<open>Capacity and positive occupancies are kept\<close>

lemma sum_filter_le:
  "\<forall>g \<in> set gs. 0 < occupancy g \<Longrightarrow>
   sum_list (map occupancy (filter P gs)) \<le> sum_list (map occupancy gs)"
  by (induction gs) auto

lemma guests_ok_iff:
  "guests_ok s \<longleftrightarrow> (\<forall>g \<in> set (unassignedGuests s). 0 < occupancy g) \<and>
                    (\<forall>room \<in> set (rooms s). \<forall>g \<in> set (assigned room). 0 < occupancy g)"
  by (auto simp: guests_ok_def all_guests_def)

lemma assign_capacity_ok:
  assumes "assign guest source targetRoomId s = Inr s'" and "capacity_ok s" and "guests_ok s"
  shows "capacity_ok s'"
  unfolding capacity_ok_def
proof
  fix room assume "room \<in> set (rooms s')"
  from assign_rooms_cases [OF assms(1) this]
  consider (old) "room \<in> set (rooms s)"
    | (target) r where "r \<in> set (rooms s)" "room = r\<lparr>assigned := assigned r @ [guest]\<rparr>"
        "currentOccupancy (assigned r) + occupancy guest \<le> capacity r"
    | (src) r where "r \<in> set (rooms s)"
        "room = r\<lparr>assigned := filter (\<lambda>g. guest_id g \<noteq> guest_id guest) (assigned r)\<rparr>"
    by blast
  then show "currentOccupancy (assigned room) \<le> capacity room"
  proof cases
    case old
    with assms(2) show ?thesis by (simp add: capacity_ok_def)
  next
    case target
    then show ?thesis by (simp add: currentOccupancy_sum)
  next
    case src
    from src(1) assms(3) have "\<forall>g \<in> set (assigned r). 0 < occupancy g"
      by (simp add: guests_ok_iff)
    from sum_filter_le [OF this, of "\<lambda>g. guest_id g \<noteq> guest_id guest"] src assms(2)
    show ?thesis by (fastforce simp: currentOccupancy_sum capacity_ok_def)
  qed
qed

lemma assign_guests_ok:
  assumes "assign guest source targetRoomId s = Inr s'" and "guests_ok s" and "0 < occupancy guest"
  shows "guests_ok s'"
  unfolding guests_ok_iff
proof (intro conjI ballI)
  fix g assume "g \<in> set (unassignedGuests s')"
  with assign_pool_subset [OF assms(1)] assms(2) show "0 < occupancy g"
    by (auto simp: guests_ok_iff)
next
  fix room g assume room: "room \<in> set (rooms s')" and g: "g \<in> set (assigned room)"
  from assign_rooms_cases [OF assms(1) room] g assms(2,3) show "0 < occupancy g"
    by (auto simp: guests_ok_iff)
qed

lemma unassign_capacity_ok:
  assumes "capacity_ok s" and "guests_ok s"
  shows "capacity_ok (unassign guest source s)"
proof (cases "source = ''unassigned''")
  case True
  with assms(1) show ?thesis by (simp add: unassign_from_pool capacity_ok_def)
next
  case False
  have "currentOccupancy (filter P (assigned room)) \<le> capacity room"
    if "room \<in> set (rooms s)" for room P
  proof -
    from that assms(2) have "\<forall>g \<in> set (assigned room). 0 < occupancy g"
      by (simp add: guests_ok_iff)
    from sum_filter_le [OF this, of P] that assms(1) show ?thesis
      by (fastforce simp: currentOccupancy_sum capacity_ok_def)
  qed
  with False assms(1) show ?thesis
    by (auto simp: unassign_from_room capacity_ok_def)
qed

lemma unassign_guests_ok:
  assumes "guests_ok s" and "0 < occupancy guest"
  shows "guests_ok (unassign guest source s)"
  using assms
  by (cases "source = ''unassigned''")
     (auto simp: unassign_from_pool unassign_from_room guests_ok_iff)

lemma autoAssign_capacity_ok: "capacity_ok s \<Longrightarrow> capacity_ok (autoAssign s)"
  using autoAssign_rooms_capacity [of "rooms s" "unassignedGuests s"]
  by (simp add: autoAssign_def handleAutoAssign_def case_prod_beta capacity_ok_def)

lemma autoAssign_all_guests:
  "mset (all_guests (autoAssign s)) = mset (all_guests s)"
  using autoAssign_rooms_mset [of "rooms s" "unassignedGuests s"]
  by (simp add: autoAssign_def handleAutoAssign_def case_prod_beta all_guests_def)

lemma autoAssign_guests_ok: "guests_ok s \<Longrightarrow> guests_ok (autoAssign s)"
proof -
  assume ok: "guests_ok s"
  have "set_mset (mset (all_guests (autoAssign s))) = set_mset (mset (all_guests s))"
    by (simp only: autoAssign_all_guests)
  with ok show ?thesis by (simp add: guests_ok_def)
qed

lemma reset_capacity_ok:
  assumes "capacity_ok s" and "guests_ok s"
  shows "capacity_ok (reset s)"
proof -
  have "0 \<le> capacity room" if "room \<in> set (rooms s)" for room
  proof -
    from that assms(2) have "\<forall>g \<in> set (assigned room). 0 < occupancy g"
      by (simp add: guests_ok_iff)
    from sum_filter_le [OF this, of "\<lambda>g. False"] that assms(1) show ?thesis
      by (fastforce simp: currentOccupancy_sum capacity_ok_def)
  qed
  then show ?thesis
    by (simp add: reset_eq capacity_ok_def currentOccupancy_sum)
qed

lemma reset_guests_ok: "guests_ok s \<Longrightarrow> guests_ok (reset s)"
  by (auto simp: reset_eq guests_ok_iff)

subsection \<open>Sequences of operations\<close>

lemma apply_op_invariant:
  assumes "apply_op op s = Inr s'" and "capacity_ok s" and "guests_ok s" and "op_guest_ok op"
  shows "capacity_ok s' \<and> guests_ok s'"
proof (cases op)
  case (Assign guest source targetRoomId)
  with assms show ?thesis
    by (auto intro: assign_capacity_ok assign_guests_ok)
next
  case (Unassign guest source)
  with assms show ?thesis
    by (auto intro: unassign_capacity_ok unassign_guests_ok)
next
  case AutoAssign
  with assms show ?thesis
    by (auto intro: autoAssign_capacity_ok autoAssign_guests_ok)
next
  case Reset
  with assms show ?thesis
    by (auto intro: reset_capacity_ok reset_guests_ok)
qed

lemma trace_capacity_ok:
  assumes "capacity_ok s" and "guests_ok s" and "\<forall>op \<in> set ops. op_guest_ok op"
  shows "\<forall>s' \<in> set (trace ops s). capacity_ok s'"
  using assms
proof (induction ops arbitrary: s)
  case Nil
  then show ?case by simp
next
  case (Cons op ops)
  show ?case
  proof (cases "apply_op op s")
    case (Inl e)
    then show ?thesis by simp
  next
    case (Inr s1)
    from apply_op_invariant [OF Inr Cons.prems(1,2)] Cons.prems(3)
    have s1: "capacity_ok s1" "guests_ok s1" by simp_all
    from Cons.IH [OF s1] Cons.prems(3) have "\<forall>s' \<in> set (trace ops s1). capacity_ok s'"
      by simp
    with Inr s1(1) show ?thesis by simp
  qed
qed

lemma apply_op_room_ids:
  assumes "apply_op op s = Inr s'"
  shows "map room_id (rooms s') = map room_id (rooms s)"
proof (rule room_frame_ids, cases op)
  case (Assign guest source targetRoomId)
  with assms show "map room_frame (rooms s') = map room_frame (rooms s)"
    by (simp add: assign_frame)
next
  case (Unassign guest source)
  with assms unassign_frame [of guest source s]
  show "map room_frame (rooms s') = map room_frame (rooms s)" by auto
next
  case AutoAssign
  with assms autoAssign_frame [of s]
  show "map room_frame (rooms s') = map room_frame (rooms s)" by auto
next
  case Reset
  with assms reset_frame [of s]
  show "map room_frame (rooms s') = map room_frame (rooms s)" by auto
qed

lemma op_target_ok_ids:
  "map room_id (rooms s') = map room_id (rooms s) \<Longrightarrow> op_target_ok s' op = op_target_ok s op"
proof -
  assume "map room_id (rooms s') = map room_id (rooms s)"
  then have "set (map room_id (rooms s')) = set (map room_id (rooms s))" by simp
  then show ?thesis by (cases op) simp_all
qed

lemma assign_total:
  assumes "targetRoomId \<in> room_id ` set (rooms s)"
  shows "\<exists>s'. assign guest source targetRoomId s = Inr s'"
proof -
  from assms obtain i where i: "findIndex (\<lambda>r. room_id r = targetRoomId) (rooms s) = Some i"
    by (cases "findIndex (\<lambda>r. room_id r = targetRoomId) (rooms s)") (auto simp: findIndex_None)
  show ?thesis
  proof (cases "currentOccupancy (assigned (rooms s ! i)) + occupancy guest > capacity (rooms s ! i)")
    case True
    from assign_rejected [OF i True] show ?thesis by simp
  next
    case fits: False
    show ?thesis
    proof (cases "source = ''unassigned''")
      case True
      with assign_from_pool [OF i fits] show ?thesis by simp
    next
      case False
      show ?thesis
      proof (cases "findIndex (\<lambda>r. room_id r = source) (rooms s)")
        case None
        from assign_from_nowhere [OF i fits False None] show ?thesis by simp
      next
        case (Some j)
        from assign_from_room [OF i fits False Some] show ?thesis by simp
      qed
    qed
  qed
qed

lemma apply_op_total: "op_target_ok s op \<Longrightarrow> \<exists>s'. apply_op op s = Inr s'"
  by (cases op) (simp_all add: assign_total)

lemma trace_length:
  "\<forall>op \<in> set ops. op_target_ok s op \<Longrightarrow> length (trace ops s) = length ops"
proof (induction ops arbitrary: s)
  case Nil
  then show ?case by simp
next
  case (Cons op ops)
  from Cons.prems have "op_target_ok s op" by simp
  then obtain s1 where s1: "apply_op op s = Inr s1"
    using apply_op_total by blast
  from Cons.prems have "\<forall>op \<in> set ops. op_target_ok s op" by simp
  then have "\<forall>op \<in> set ops. op_target_ok s1 op"
    by (simp only: op_target_ok_ids [OF apply_op_room_ids [OF s1]])
  then have "length (trace ops s1) = length ops" by (rule Cons.IH)
  with s1 show ?case by simp
qed

text \<open>
  C2. From a state in which every room holds at most its capacity (and every guest has a
  positive occupancy, as the data model says), the state after each call of any sequence
  of assign, unassign, autoAssign and reset calls again has every room within its
  capacity. The sequence runs to its end when every assign names an existing room. An
  assign that would exceed the target room's capacity is rejected: it returns with a
  capacity warning and leaves the rooms and the pool as they were.
\<close>

theorem capacity_invariant_preserved:
  assumes "capacity_ok s" and "guests_ok s" and "\<forall>op \<in> set ops. op_guest_ok op"
  shows "(\<forall>s' \<in> set (trace ops s). capacity_ok s') \<and>
         ((\<forall>op \<in> set ops. op_target_ok s op) \<longrightarrow> length (trace ops s) = length ops) \<and>
         (\<forall>guest source targetRoomId i.
            findIndex (\<lambda>r. room_id r = targetRoomId) (rooms s) = Some i \<and>
            capacity (rooms s ! i) < currentOccupancy (assigned (rooms s ! i)) + occupancy guest \<longrightarrow>
            (\<exists>s'. assign guest source targetRoomId s = Inr s' \<and>
                  rooms s' = rooms s \<and> unassignedGuests s' = unassignedGuests s \<and>
                  warning s' = Some (CapacityWarning (guest_name guest)
                                       (room_type (rooms s ! i)) (capacity (rooms s ! i)))))"
proof (intro conjI)
  show "\<forall>s' \<in> set (trace ops s). capacity_ok s'"
    using assms by (rule trace_capacity_ok)
  show "(\<forall>op \<in> set ops. op_target_ok s op) \<longrightarrow> length (trace ops s) = length ops"
    by (simp add: trace_length)
  show "\<forall>guest source targetRoomId i.
            findIndex (\<lambda>r. room_id r = targetRoomId) (rooms s) = Some i \<and>
            capacity (rooms s ! i) < currentOccupancy (assigned (rooms s ! i)) + occupancy guest \<longrightarrow>
            (\<exists>s'. assign guest source targetRoomId s = Inr s' \<and>
                  rooms s' = rooms s \<and> unassignedGuests s' = unassignedGuests s \<and>
                  warning s' = Some (CapacityWarning (guest_name guest)
                                       (room_type (rooms s ! i)) (capacity (rooms s ! i))))"
  proof (intro allI impI, elim conjE)
    fix guest :: Guest and source targetRoomId :: string and i :: nat
    assume "findIndex (\<lambda>r. room_id r = targetRoomId) (rooms s) = Some i"
      and "capacity (rooms s ! i) < currentOccupancy (assigned (rooms s ! i)) + occupancy guest"
    from assign_rejected [OF this, of source]
    show "\<exists>s'. assign guest source targetRoomId s = Inr s' \<and>
                  rooms s' = rooms s \<and> unassignedGuests s' = unassignedGuests s \<and>
                  warning s' = Some (CapacityWarning (guest_name guest)
                                       (room_type (rooms s ! i)) (capacity (rooms s ! i)))"
      by simp
  qed
qed

lemmas demo_defs = demo_state_def rajesh_def priya_def amit_def sneha_def deluxe_def suite_def

theorem capacity_invariant_preserved_witness:
  "capacity_ok demo_state \<and> guests_ok demo_state \<and>
   list_all op_guest_ok
     [Assign priya ''unassigned'' ''r1'', Assign rajesh ''unassigned'' ''r1'', AutoAssign,
      Unassign priya ''r1'', Assign amit ''unassigned'' ''r2'', Reset] \<and>
   list_all capacity_ok
     (trace [Assign priya ''unassigned'' ''r1'', Assign rajesh ''unassigned'' ''r1'', AutoAssign,
             Unassign priya ''r1'', Assign amit ''unassigned'' ''r2'', Reset] demo_state) \<and>
   length (trace [Assign priya ''unassigned'' ''r1'', Assign rajesh ''unassigned'' ''r1'', AutoAssign,
             Unassign priya ''r1'', Assign amit ''unassigned'' ''r2'', Reset] demo_state) = 6 \<and>
   (\<exists>s'. assign amit ''unassigned'' ''r1'' demo_state = Inr s' \<and>
         rooms s' = rooms demo_state \<and> unassignedGuests s' = unassignedGuests demo_state \<and>
         warning s' = Some (CapacityWarning ''Amit Patel'' ''Deluxe Room'' 2))"
proof -
  let ?ops = "[Assign priya ''unassigned'' ''r1'', Assign rajesh ''unassigned'' ''r1'', AutoAssign,
      Unassign priya ''r1'', Assign amit ''unassigned'' ''r2'', Reset]"
  have c: "capacity_ok demo_state"
    by (simp add: capacity_ok_def currentOccupancy_def demo_defs)
  have g: "guests_ok demo_state"
    by (simp add: guests_ok_def all_guests_def demo_defs)
  have o: "\<forall>op \<in> set ?ops. op_guest_ok op"
    by (simp add: demo_defs)
  have t: "\<forall>op \<in> set ?ops. op_target_ok demo_state op"
    by (simp add: demo_defs)
  have f: "findIndex (\<lambda>r. room_id r = ''r1'') (rooms demo_state) = Some 0 \<and>
           capacity (rooms demo_state ! 0)
             < currentOccupancy (assigned (rooms demo_state ! 0)) + occupancy amit"
    by (simp add: currentOccupancy_def demo_defs)
  note main = capacity_invariant_preserved [OF c g o]
  from main have a: "\<forall>s' \<in> set (trace ?ops demo_state). capacity_ok s'"
    by (rule conjunct1)
  from main have "(\<forall>op \<in> set ?ops. op_target_ok demo_state op) \<longrightarrow>
      length (trace ?ops demo_state) = length ?ops"
    by (rule conjunct1 [OF conjunct2])
  then have b: "length (trace ?ops demo_state) = length ?ops"
    using t by (rule mp)
  from main have "\<forall>guest source targetRoomId i.
      findIndex (\<lambda>r. room_id r = targetRoomId) (rooms demo_state) = Some i \<and>
      capacity (rooms demo_state ! i)
        < currentOccupancy (assigned (rooms demo_state ! i)) + occupancy guest \<longrightarrow>
      (\<exists>s'. assign guest source targetRoomId demo_state = Inr s' \<and>
            rooms s' = rooms demo_state \<and> unassignedGuests s' = unassignedGuests demo_state \<and>
            warning s' = Some (CapacityWarning (guest_name guest)
                                 (room_type (rooms demo_state ! i)) (capacity (rooms demo_state ! i))))"
    by (rule conjunct2 [OF conjunct2])
  then have "findIndex (\<lambda>r. room_id r = ''r1'') (rooms demo_state) = Some 0 \<and>
      capacity (rooms demo_state ! 0)
        < currentOccupancy (assigned (rooms demo_state ! 0)) + occupancy amit \<longrightarrow>
      (\<exists>s'. assign amit ''unassigned'' ''r1'' demo_state = Inr s' \<and>
            rooms s' = rooms demo_state \<and> unassignedGuests s' = unassignedGuests demo_state \<and>
            warning s' = Some (CapacityWarning (guest_name amit)
                                 (room_type (rooms demo_state ! 0)) (capacity (rooms demo_state ! 0))))"
    by (elim allE)
  then have "\<exists>s'. assign amit ''unassigned'' ''r1'' demo_state = Inr s' \<and>
      rooms s' = rooms demo_state \<and> unassignedGuests s' = unassignedGuests demo_state \<and>
      warning s' = Some (CapacityWarning (guest_name amit)
                           (room_type (rooms demo_state ! 0)) (capacity (rooms demo_state ! 0)))"
    using f by (rule mp)
  then have r: "\<exists>s'. assign amit ''unassigned'' ''r1'' demo_state = Inr s' \<and>
      rooms s' = rooms demo_state \<and> unassignedGuests s' = unassignedGuests demo_state \<and>
      warning s' = Some (CapacityWarning ''Amit Patel'' ''Deluxe Room'' 2)"
    by (simp add: amit_def demo_state_def deluxe_def)
  from o have o': "list_all op_guest_ok ?ops" by (simp only: list_all_iff)
  from a have a': "list_all capacity_ok (trace ?ops demo_state)" by (simp only: list_all_iff)
  from b have b': "length (trace ?ops demo_state) = 6" by (simp only: list.size)
  from c g o' a' b' r show ?thesis by (intro conjI)
qed

section \<open>Auto assignment is first fit in order\<close>

text \<open>
  C3. autoAssign is the single-pass first-fit-in-order heuristic: the rooms are visited
  once, in list order; for each room the remaining guests are scanned in order, a guest
  is added exactly when its occupancy is at most the room's remaining space, and the
  others are carried forward to the next room. The guests are those of the data model
  (positive occupancy). From the pool A (2), B (1), C (3) and the empty rooms R1 (2) and
  R2 (3) the result is R1 = [A], R2 = [B] and the pool [C].
\<close>

theorem autoAssign_first_fit_in_order:
  "((\<forall>g \<in> set (unassignedGuests s). 0 < occupancy g) \<longrightarrow>
      rooms (autoAssign s) = fst (first_fit_in_order (rooms s) (unassignedGuests s)) \<and>
      unassignedGuests (autoAssign s) = snd (first_fit_in_order (rooms s) (unassignedGuests s))) \<and>
   (occupancy a = 2 \<and> occupancy b = 1 \<and> occupancy c = 3 \<and>
    capacity r1 = 2 \<and> assigned r1 = [] \<and> capacity r2 = 3 \<and> assigned r2 = [] \<and>
    rooms s0 = [r1, r2] \<and> unassignedGuests s0 = [a, b, c] \<longrightarrow>
      rooms (autoAssign s0) = [r1\<lparr>assigned := [a]\<rparr>, r2\<lparr>assigned := [b]\<rparr>] \<and>
      unassignedGuests (autoAssign s0) = [c])"
proof (rule conjI)
  show "(\<forall>g \<in> set (unassignedGuests s). 0 < occupancy g) \<longrightarrow>
     rooms (autoAssign s) = fst (first_fit_in_order (rooms s) (unassignedGuests s)) \<and>
     unassignedGuests (autoAssign s) = snd (first_fit_in_order (rooms s) (unassignedGuests s))"
    by (simp add: autoAssign_def handleAutoAssign_def case_prod_beta autoAssign_rooms_first_fit)
  show "occupancy a = 2 \<and> occupancy b = 1 \<and> occupancy c = 3 \<and>
   capacity r1 = 2 \<and> assigned r1 = [] \<and> capacity r2 = 3 \<and> assigned r2 = [] \<and>
   rooms s0 = [r1, r2] \<and> unassignedGuests s0 = [a, b, c] \<longrightarrow>
     rooms (autoAssign s0) = [r1\<lparr>assigned := [a]\<rparr>, r2\<lparr>assigned := [b]\<rparr>] \<and>
     unassignedGuests (autoAssign s0) = [c]"
    by (simp add: autoAssign_def handleAutoAssign_def currentOccupancy_def scan_step_def)
qed

theorem autoAssign_first_fit_in_order_witness:
  "list_all (\<lambda>g. 0 < occupancy g) (unassignedGuests (demo_state\<lparr>unassignedGuests := [rajesh, priya, amit]\<rparr>)) \<and>
   first_fit_in_order [deluxe, suite] [rajesh, priya, amit]
     = ([deluxe\<lparr>assigned := [rajesh]\<rparr>, suite\<lparr>assigned := [priya]\<rparr>], [amit]) \<and>
   rooms (autoAssign (demo_state\<lparr>unassignedGuests := [rajesh, priya, amit]\<rparr>))
     = [deluxe\<lparr>assigned := [rajesh]\<rparr>, suite\<lparr>assigned := [priya]\<rparr>] \<and>
   unassignedGuests (autoAssign (demo_state\<lparr>unassignedGuests := [rajesh, priya, amit]\<rparr>)) = [amit]"
proof -
  let ?s = "demo_state\<lparr>unassignedGuests := [rajesh, priya, amit]\<rparr>"
  have pos: "\<forall>g \<in> set (unassignedGuests ?s). 0 < occupancy g"
    by (simp add: demo_defs)
  have ff: "first_fit_in_order [deluxe, suite] [rajesh, priya, amit]
     = ([deluxe\<lparr>assigned := [rajesh]\<rparr>, suite\<lparr>assigned := [priya]\<rparr>], [amit])"
    by (simp add: demo_defs)
  have "rooms ?s = [deluxe, suite]" "unassignedGuests ?s = [rajesh, priya, amit]"
    by (simp_all add: demo_state_def)
  with autoAssign_first_fit_in_order [of ?s] pos ff
  have "rooms (autoAssign ?s) = [deluxe\<lparr>assigned := [rajesh]\<rparr>, suite\<lparr>assigned := [priya]\<rparr>]
      \<and> unassignedGuests (autoAssign ?s) = [amit]"
    by simp
  with pos ff show ?thesis by (simp add: list_all_iff)
qed

section \<open>Assigning a guest to a room\<close>

lemma findIndex_map: "findIndex P (map f xs) = findIndex (\<lambda>x. P (f x)) xs"
  by (induction xs) simp_all

lemma findIndex_room_id:
  "map room_id rs' = map room_id rs \<Longrightarrow>
   findIndex (\<lambda>r. room_id r = k) rs' = findIndex (\<lambda>r. room_id r = k) rs"
  using findIndex_map [of "\<lambda>x. x = k" room_id rs'] findIndex_map [of "\<lambda>x. x = k" room_id rs]
  by simp

lemma findIndex_room_exists:
  assumes "findIndex (\<lambda>r. room_id r = k) rs = Some i"
  shows "k \<in> room_id ` set rs"
proof -
  from findIndex_Some [OF assms] have "i < length rs" and "room_id (rs ! i) = k"
    by simp_all
  then have "rs ! i \<in> set rs" and "k = room_id (rs ! i)" by simp_all
  then show ?thesis by (rule_tac image_eqI)
qed

lemma assign_Inr_cases:
  assumes "assign guest source targetRoomId s = Inr s'"
  obtains (rejected) i where "findIndex (\<lambda>r. room_id r = targetRoomId) (rooms s) = Some i"
      and "capacity (rooms s ! i) < currentOccupancy (assigned (rooms s ! i)) + occupancy guest"
      and "s' = s\<lparr>draggedGuest := None,
                  warning := Some (CapacityWarning (guest_name guest)
                    (room_type (rooms s ! i)) (capacity (rooms s ! i)))\<rparr>"
    | (accepted) i where "findIndex (\<lambda>r. room_id r = targetRoomId) (rooms s) = Some i"
      and "currentOccupancy (assigned (rooms s ! i)) + occupancy guest \<le> capacity (rooms s ! i)"
      and "warning s' = None" and "draggedGuest s' = None"
      and "rooms s' ! i = (rooms s ! i)\<lparr>assigned := assigned (rooms s ! i) @ [guest]\<rparr>"
proof (cases "findIndex (\<lambda>r. room_id r = targetRoomId) (rooms s)")
  case None
  with assms show ?thesis by (simp add: assign_no_target)
next
  case (Some i)
  then have i: "i < length (rooms s)" by (simp add: findIndex_Some)
  show ?thesis
  proof (cases "currentOccupancy (assigned (rooms s ! i)) + occupancy guest > capacity (rooms s ! i)")
    case True
    from assign_rejected [OF Some True, of source] assms rejected [OF Some True] show ?thesis
      by simp
  next
    case fits: False
    have "warning s' = None \<and> draggedGuest s' = None \<and>
          rooms s' ! i = (rooms s ! i)\<lparr>assigned := assigned (rooms s ! i) @ [guest]\<rparr>"
    proof (cases "source = ''unassigned''")
      case True
      with assign_from_pool [OF Some fits] assms i show ?thesis by auto
    next
      case False
      show ?thesis
      proof (cases "findIndex (\<lambda>r. room_id r = source) (rooms s)")
        case None
        from assign_from_nowhere [OF Some fits False None] assms i show ?thesis by auto
      next
        case (Some j)
        from assign_from_room [OF \<open>findIndex (\<lambda>r. room_id r = targetRoomId) (rooms s) = Some i\<close>
            fits False Some] assms i
        show ?thesis by auto
      qed
    qed
    with accepted [OF Some] fits show ?thesis by simp
  qed
qed

text \<open>
  C4. If assign fails with the capacity violation, which is the one outcome that leaves
  a warning, then the rooms with their assigned lists and the unassigned pool are
  exactly what they were before the call.
\<close>

theorem assign_failure_is_noop:
  assumes "assign guest source targetRoomId s = Inr s'" and "warning s' = Some w"
  shows "rooms s' = rooms s \<and> unassignedGuests s' = unassignedGuests s \<and>
         (\<exists>i. findIndex (\<lambda>r. room_id r = targetRoomId) (rooms s) = Some i \<and>
              capacity (rooms s ! i) < currentOccupancy (assigned (rooms s ! i)) + occupancy guest)"
  using assms(1)
proof (cases rule: assign_Inr_cases)
  case (rejected i)
  then show ?thesis by simp
next
  case (accepted i)
  with assms(2) show ?thesis by simp
qed

theorem assign_failure_is_noop_witness:
  "assign amit ''unassigned'' ''r1'' demo_state
     = Inr (demo_state\<lparr>warning := Some (CapacityWarning ''Amit Patel'' ''Deluxe Room'' 2)\<rparr>) \<and>
   rooms (demo_state\<lparr>warning := Some (CapacityWarning ''Amit Patel'' ''Deluxe Room'' 2)\<rparr>)
     = rooms demo_state \<and>
   unassignedGuests (demo_state\<lparr>warning := Some (CapacityWarning ''Amit Patel'' ''Deluxe Room'' 2)\<rparr>)
     = unassignedGuests demo_state"
proof -
  let ?s' = "demo_state\<lparr>warning := Some (CapacityWarning ''Amit Patel'' ''Deluxe Room'' 2)\<rparr>"
  have run: "assign amit ''unassigned'' ''r1'' demo_state = Inr ?s'"
    by (simp add: assign_def handleDropToRoom_def handleDragStart_def currentOccupancy_def demo_defs)
  have w: "warning ?s' = Some (CapacityWarning ''Amit Patel'' ''Deluxe Room'' 2)"
    by simp
  from assign_failure_is_noop [OF run w] run show ?thesis by simp
qed

lemma assign_accepted:
  assumes "findIndex (\<lambda>r. room_id r = targetRoomId) (rooms s) = Some i"
    and fits: "currentOccupancy (assigned (rooms s ! i)) + occupancy guest \<le> capacity (rooms s ! i)"
  shows "\<exists>s'. assign guest source targetRoomId s = Inr s' \<and> warning s' = None \<and>
                  rooms s' ! i = (rooms s ! i)\<lparr>assigned := assigned (rooms s ! i) @ [guest]\<rparr>"
proof -
  from assms(1) have "targetRoomId \<in> room_id ` set (rooms s)"
    by (rule findIndex_room_exists)
  from assign_total [OF this]
  obtain s' where s': "assign guest source targetRoomId s = Inr s'" ..
  from s' show ?thesis
  proof (cases rule: assign_Inr_cases)
    case (rejected j)
    with assms show ?thesis by simp
  next
    case (accepted j)
    with assms(1) have "j = i" by simp
    with accepted s' show ?thesis by simp
  qed
qed

lemma assign_then_refused:
  assumes f: "findIndex (\<lambda>r. room_id r = targetRoomId) (rooms s) = Some i"
    and cap: "capacity (rooms s ! i) = 2" and empty: "assigned (rooms s ! i) = []"
    and one: "occupancy guest = 1" and two: "occupancy other = 2"
  shows "\<exists>s1 s2. assign guest source targetRoomId s = Inr s1 \<and> warning s1 = None \<and>
                  currentOccupancy (assigned (rooms s1 ! i)) = 1 \<and>
                  assign other otherSource targetRoomId s1 = Inr s2 \<and>
                  warning s2 = Some (CapacityWarning (guest_name other)
                                       (room_type (rooms s ! i)) 2) \<and>
                  currentOccupancy (assigned (rooms s2 ! i)) = 1"
proof -
  from cap empty one
  have "currentOccupancy (assigned (rooms s ! i)) + occupancy guest \<le> capacity (rooms s ! i)"
    by (simp add: currentOccupancy_def)
  from assign_accepted [OF f this, of source] empty
  obtain s1 where s1: "assign guest source targetRoomId s = Inr s1" and w1: "warning s1 = None"
    and r1: "rooms s1 ! i = (rooms s ! i)\<lparr>assigned := [guest]\<rparr>"
    by auto
  have "map room_id (rooms s1) = map room_id (rooms s)"
    using assign_frame [OF s1] by (rule room_frame_ids)
  from findIndex_room_id [OF this, of targetRoomId] f
  have i1: "findIndex (\<lambda>r. room_id r = targetRoomId) (rooms s1) = Some i"
    by simp
  from r1 one have o1: "currentOccupancy (assigned (rooms s1 ! i)) = 1"
    by (simp add: currentOccupancy_def)
  from r1 o1 cap two
  have over: "capacity (rooms s1 ! i) < currentOccupancy (assigned (rooms s1 ! i)) + occupancy other"
    by simp
  let ?s2 = "s1\<lparr>draggedGuest := None,
                 warning := Some (CapacityWarning (guest_name other)
                   (room_type (rooms s1 ! i)) (capacity (rooms s1 ! i)))\<rparr>"
  from assign_rejected [OF i1 over]
  have s2: "assign other otherSource targetRoomId s1 = Inr ?s2" .
  from r1 cap have w2: "warning ?s2 = Some (CapacityWarning (guest_name other) (room_type (rooms s ! i)) 2)"
    by simp
  from o1 have o2: "currentOccupancy (assigned (rooms ?s2 ! i)) = 1"
    by simp
  from s1 w1 o1 s2 w2 o2 show ?thesis
    by (intro exI [of _ s1] exI [of _ ?s2] conjI)
qed

text \<open>
  C5. With r the room that the target id names: assign fails exactly when the sum of the
  occupancies of r's assigned guests plus the guest's occupancy exceeds r's capacity,
  and the warning then carries the guest's name, r's type and r's capacity; otherwise
  assign succeeds and the guest is appended to r's assigned list. In particular, in an
  empty room of capacity 2 a guest of occupancy 1 is accepted and the room's occupancy
  becomes 1; a guest of occupancy 2 is then refused and the occupancy stays 1.
\<close>

theorem assign_fails_iff_over_capacity:
  assumes "findIndex (\<lambda>r. room_id r = targetRoomId) (rooms s) = Some i"
  shows "(capacity (rooms s ! i) < currentOccupancy (assigned (rooms s ! i)) + occupancy guest \<longrightarrow>
            assign guest source targetRoomId s =
              Inr (s\<lparr>draggedGuest := None,
                     warning := Some (CapacityWarning (guest_name guest)
                       (room_type (rooms s ! i)) (capacity (rooms s ! i)))\<rparr>)) \<and>
         (currentOccupancy (assigned (rooms s ! i)) + occupancy guest \<le> capacity (rooms s ! i) \<longrightarrow>
            (\<exists>s'. assign guest source targetRoomId s = Inr s' \<and> warning s' = None \<and>
                  rooms s' ! i = (rooms s ! i)\<lparr>assigned := assigned (rooms s ! i) @ [guest]\<rparr>)) \<and>
         (capacity (rooms s ! i) = 2 \<and> assigned (rooms s ! i) = [] \<and>
          occupancy guest = 1 \<and> occupancy other = 2 \<longrightarrow>
            (\<exists>s1 s2. assign guest source targetRoomId s = Inr s1 \<and> warning s1 = None \<and>
                  currentOccupancy (assigned (rooms s1 ! i)) = 1 \<and>
                  assign other otherSource targetRoomId s1 = Inr s2 \<and>
                  warning s2 = Some (CapacityWarning (guest_name other)
                                       (room_type (rooms s ! i)) 2) \<and>
                  currentOccupancy (assigned (rooms s2 ! i)) = 1))"
proof (intro conjI impI)
  assume "capacity (rooms s ! i) < currentOccupancy (assigned (rooms s ! i)) + occupancy guest"
  with assms show "assign guest source targetRoomId s =
              Inr (s\<lparr>draggedGuest := None,
                     warning := Some (CapacityWarning (guest_name guest)
                       (room_type (rooms s ! i)) (capacity (rooms s ! i)))\<rparr>)"
    by (rule assign_rejected)
next
  assume "currentOccupancy (assigned (rooms s ! i)) + occupancy guest \<le> capacity (rooms s ! i)"
  with assms show "\<exists>s'. assign guest source targetRoomId s = Inr s' \<and> warning s' = None \<and>
                  rooms s' ! i = (rooms s ! i)\<lparr>assigned := assigned (rooms s ! i) @ [guest]\<rparr>"
    by (rule assign_accepted)
next
  assume "capacity (rooms s ! i) = 2 \<and> assigned (rooms s ! i) = [] \<and>
          occupancy guest = 1 \<and> occupancy other = 2"
  then have "capacity (rooms s ! i) = 2" "assigned (rooms s ! i) = []"
    "occupancy guest = 1" "occupancy other = 2"
    by simp_all
  with assms show "\<exists>s1 s2. assign guest source targetRoomId s = Inr s1 \<and> warning s1 = None \<and>
                  currentOccupancy (assigned (rooms s1 ! i)) = 1 \<and>
                  assign other otherSource targetRoomId s1 = Inr s2 \<and>
                  warning s2 = Some (CapacityWarning (guest_name other)
                                       (room_type (rooms s ! i)) 2) \<and>
                  currentOccupancy (assigned (rooms s2 ! i)) = 1"
    by (rule assign_then_refused)
qed

theorem assign_fails_iff_over_capacity_witness:
  "findIndex (\<lambda>r. room_id r = ''r1'') (rooms demo_state) = Some 0 \<and>
   capacity (rooms demo_state ! 0) = 2 \<and> assigned (rooms demo_state ! 0) = [] \<and>
   occupancy priya = 1 \<and> occupancy rajesh = 2 \<and>
   (\<exists>s1 s2. assign priya ''unassigned'' ''r1'' demo_state = Inr s1 \<and> warning s1 = None \<and>
      currentOccupancy (assigned (rooms s1 ! 0)) = 1 \<and>
      assign rajesh ''unassigned'' ''r1'' s1 = Inr s2 \<and>
      warning s2 = Some (CapacityWarning ''Rajesh Kumar'' ''Deluxe Room'' 2) \<and>
      currentOccupancy (assigned (rooms s2 ! 0)) = 1)"
proof -
  have f: "findIndex (\<lambda>r. room_id r = ''r1'') (rooms demo_state) = Some 0"
    by (simp add: demo_defs)
  have sc: "capacity (rooms demo_state ! 0) = 2 \<and> assigned (rooms demo_state ! 0) = [] \<and>
            occupancy priya = 1 \<and> occupancy rajesh = 2"
    by (simp add: demo_defs)
  have names: "guest_name rajesh = ''Rajesh Kumar''" "room_type (rooms demo_state ! 0) = ''Deluxe Room''"
    by (simp_all add: demo_defs)
  note main = assign_fails_iff_over_capacity [OF f, where guest = priya and other = rajesh
      and source = "''unassigned''" and otherSource = "''unassigned''"]
  from main have "capacity (rooms demo_state ! 0) = 2 \<and> assigned (rooms demo_state ! 0) = [] \<and>
          occupancy priya = 1 \<and> occupancy rajesh = 2 \<longrightarrow>
     (\<exists>s1 s2. assign priya ''unassigned'' ''r1'' demo_state = Inr s1 \<and> warning s1 = None \<and>
      currentOccupancy (assigned (rooms s1 ! 0)) = 1 \<and>
      assign rajesh ''unassigned'' ''r1'' s1 = Inr s2 \<and>
      warning s2 = Some (CapacityWarning (guest_name rajesh) (room_type (rooms demo_state ! 0)) 2) \<and>
      currentOccupancy (assigned (rooms s2 ! 0)) = 1)"
    by (rule conjunct2 [OF conjunct2])
  then have "\<exists>s1 s2. assign priya ''unassigned'' ''r1'' demo_state = Inr s1 \<and> warning s1 = None \<and>
      currentOccupancy (assigned (rooms s1 ! 0)) = 1 \<and>
      assign rajesh ''unassigned'' ''r1'' s1 = Inr s2 \<and>
      warning s2 = Some (CapacityWarning (guest_name rajesh) (room_type (rooms demo_state ! 0)) 2) \<and>
      currentOccupancy (assigned (rooms s2 ! 0)) = 1"
    using sc by (rule mp)
  then have "\<exists>s1 s2. assign priya ''unassigned'' ''r1'' demo_state = Inr s1 \<and> warning s1 = None \<and>
      currentOccupancy (assigned (rooms s1 ! 0)) = 1 \<and>
      assign rajesh ''unassigned'' ''r1'' s1 = Inr s2 \<and>
      warning s2 = Some (CapacityWarning ''Rajesh Kumar'' ''Deluxe Room'' 2) \<and>
      currentOccupancy (assigned (rooms s2 ! 0)) = 1"
    by (simp only: names)
  with f sc show ?thesis by (simp only: simp_thms)
qed

section \<open>Returning a guest to the pool\<close>





section \<open>Reset\<close>

text \<open>
  C7. After reset every room's assigned list is empty, and the pool holds, as a multiset,
  the guests of the pool and of all rooms' assigned lists before the call.
\<close>

theorem reset_collects_all_guests:
  "(\<forall>room \<in> set (rooms (reset s)). assigned room = []) \<and>
   mset (unassignedGuests (reset s))
     = mset (unassignedGuests s) + mset (concat (map assigned (rooms s))) \<and>
   unassignedGuests (reset s) = unassignedGuests s @ concat (map assigned (rooms s))"
  by (simp add: reset_eq)

theorem reset_collects_all_guests_witness:
  "map assigned (rooms (reset (demo_state\<lparr>unassignedGuests := [amit],
      rooms := [deluxe\<lparr>assigned := [rajesh]\<rparr>, suite\<lparr>assigned := [priya, sneha]\<rparr>]\<rparr>))) = [[], []] \<and>
   unassignedGuests (reset (demo_state\<lparr>unassignedGuests := [amit],
      rooms := [deluxe\<lparr>assigned := [rajesh]\<rparr>, suite\<lparr>assigned := [priya, sneha]\<rparr>]\<rparr>))
     = [amit, rajesh, priya, sneha]"
proof -
  let ?s = "demo_state\<lparr>unassignedGuests := [amit],
      rooms := [deluxe\<lparr>assigned := [rajesh]\<rparr>, suite\<lparr>assigned := [priya, sneha]\<rparr>]\<rparr>"
  have len: "length (rooms (reset ?s)) = 2"
    by (simp add: reset_eq)
  from reset_collects_all_guests [of ?s]
  have e: "\<forall>room \<in> set (rooms (reset ?s)). assigned room = []"
    and p: "unassignedGuests (reset ?s) = unassignedGuests ?s @ concat (map assigned (rooms ?s))"
    by simp_all
  from e have "map assigned (rooms (reset ?s)) = replicate (length (rooms (reset ?s))) []"
    by (simp add: map_replicate_const [symmetric] cong: map_cong)
  with len have "map assigned (rooms (reset ?s)) = [[], []]"
    by (simp add: numeral_2_eq_2)
  moreover from p have "unassignedGuests (reset ?s) = [amit, rajesh, priya, sneha]"
    by (simp add: demo_state_def)
  ultimately show ?thesis by (simp only: simp_thms)
qed

text \<open>
  C8. reset is idempotent: a second reset in a row gives the state of the first, and
  that state has every room's assigned list empty and all guests, those of the old pool
  followed by those of the rooms, in the pool; the rooms themselves are kept.
\<close>

theorem reset_idempotent:
  "reset (reset s) = reset s \<and>
   (\<forall>room \<in> set (rooms (reset s)). assigned room = []) \<and>
   unassignedGuests (reset s) = all_guests s \<and>
   map room_frame (rooms (reset s)) = map room_frame (rooms s)"
  by (simp add: reset_eq comp_def all_guests_def room_frame_def)

theorem reset_idempotent_witness:
  "reset (reset (demo_state\<lparr>unassignedGuests := [amit],
      rooms := [deluxe\<lparr>assigned := [rajesh]\<rparr>, suite\<lparr>assigned := [priya, sneha]\<rparr>]\<rparr>))
     = demo_state \<lparr>unassignedGuests := [amit, rajesh, priya, sneha]\<rparr> \<and>
   reset (demo_state\<lparr>unassignedGuests := [amit],
      rooms := [deluxe\<lparr>assigned := [rajesh]\<rparr>, suite\<lparr>assigned := [priya, sneha]\<rparr>]\<rparr>)
     = demo_state \<lparr>unassignedGuests := [amit, rajesh, priya, sneha]\<rparr> \<and>
   map assigned (rooms (demo_state \<lparr>unassignedGuests := [amit, rajesh, priya, sneha]\<rparr>)) = [[], []]"
proof -
  let ?s = "demo_state\<lparr>unassignedGuests := [amit],
      rooms := [deluxe\<lparr>assigned := [rajesh]\<rparr>, suite\<lparr>assigned := [priya, sneha]\<rparr>]\<rparr>"
  let ?t = "demo_state \<lparr>unassignedGuests := [amit, rajesh, priya, sneha]\<rparr>"
  have once: "reset ?s = ?t"
    by (simp add: reset_def handleReset_def demo_defs)
  have twice: "reset (reset ?s) = reset ?s"
    by (rule conjunct1 [OF reset_idempotent])
  have "\<forall>room \<in> set (rooms (reset ?s)). assigned room = []"
    by (rule conjunct1 [OF conjunct2 [OF reset_idempotent]])
  then have "\<forall>room \<in> set (rooms ?t). assigned room = []"
    by (simp only: once)
  then have empty: "map assigned (rooms ?t) = [[], []]"
    by (simp add: demo_state_def)
  from twice have "reset (reset ?s) = ?t" by (simp only: once)
  with once empty show ?thesis by (simp only: simp_thms)
qed

section \<open>What the operations leave alone\<close>

text \<open>
  C10. Every operation keeps the list of rooms in length and order and keeps each room's
  id, hotel, type and capacity: of a room only the assigned list changes.
\<close>

theorem operations_keep_room_frame:
  "(assign guest source targetRoomId s = Inr s' \<longrightarrow>
      map room_frame (rooms s') = map room_frame (rooms s)) \<and>
   map room_frame (rooms (unassign guest source s)) = map room_frame (rooms s) \<and>
   map room_frame (rooms (autoAssign s)) = map room_frame (rooms s) \<and>
   map room_frame (rooms (reset s)) = map room_frame (rooms s)"
  by (simp add: assign_frame unassign_frame autoAssign_frame reset_frame)


theorem operations_keep_room_frame_witness:
  "assign priya ''unassigned'' ''r1'' demo_state
     = Inr (demo_state\<lparr>unassignedGuests := [rajesh, amit, sneha],
                        rooms := [deluxe\<lparr>assigned := [priya]\<rparr>, suite]\<rparr>) \<and>
   map room_frame (rooms (demo_state\<lparr>unassignedGuests := [rajesh, amit, sneha],
                                      rooms := [deluxe\<lparr>assigned := [priya]\<rparr>, suite]\<rparr>))
     = [(''r1'', ''The Grand Palace'', ''Deluxe Room'', 2),
        (''r2'', ''The Grand Palace'', ''Premium Suite'', 3)]"
proof -
  let ?s' = "demo_state\<lparr>unassignedGuests := [rajesh, amit, sneha],
                        rooms := [deluxe\<lparr>assigned := [priya]\<rparr>, suite]\<rparr>"
  have run: "assign priya ''unassigned'' ''r1'' demo_state = Inr ?s'"
    by (simp add: assign_def handleDropToRoom_def handleDragStart_def currentOccupancy_def demo_defs)
  have before: "map room_frame (rooms demo_state)
     = [(''r1'', ''The Grand Palace'', ''Deluxe Room'', 2),
        (''r2'', ''The Grand Palace'', ''Premium Suite'', 3)]"
    by (simp add: room_frame_def demo_defs)
  have "assign priya ''unassigned'' ''r1'' demo_state = Inr ?s' \<longrightarrow>
      map room_frame (rooms ?s') = map room_frame (rooms demo_state)"
    by (rule conjunct1 [OF operations_keep_room_frame])
  then have "map room_frame (rooms ?s') = map room_frame (rooms demo_state)"
    using run by (rule mp)
  with before run show ?thesis by (simp only: simp_thms)
qed

section \<open>Conservation of guests\<close>

lemma mset_concat_update:
  "k < length xs \<Longrightarrow>
   mset (concat (map f (xs[k := y]))) + mset (f (xs ! k)) = mset (concat (map f xs)) + mset (f y)"
proof (induction xs arbitrary: k)
  case Nil
  then show ?case by simp
next
  case (Cons x xs)
  show ?case
  proof (cases k)
    case 0
    then show ?thesis by simp
  next
    case (Suc n)
    with Cons.prems have "n < length xs" by simp
    from Cons.IH [OF this] Suc show ?thesis by simp
  qed
qed

lemma mset_filter_other_ids:
  assumes "distinct (map guest_id gs)" and "guest \<in> set gs"
  shows "mset (filter (\<lambda>g. guest_id g \<noteq> guest_id guest) gs) + {#guest#} = mset gs"
  using assms
proof (induction gs)
  case Nil
  then show ?case by simp
next
  case (Cons g gs)
  show ?case
  proof (cases "g = guest")
    case True
    with Cons.prems have "guest_id guest \<notin> guest_id ` set gs"
      by simp
    then have "\<forall>x \<in> set gs. guest_id x \<noteq> guest_id guest"
      by (metis imageI)
    then have "filter (\<lambda>x. guest_id x \<noteq> guest_id guest) gs = gs"
      by (simp add: filter_id_conv)
    with True show ?thesis by simp
  next
    case False
    with Cons.prems have in_rest: "guest \<in> set gs" and d: "distinct (map guest_id gs)"
      and "guest_id g \<notin> guest_id ` set gs"
      by simp_all
    then have "guest_id g \<noteq> guest_id guest"
      by (metis imageI)
    with Cons.IH [OF d in_rest] show ?thesis by simp
  qed
qed

lemma filter_absent_id:
  "guest_id guest \<notin> guest_id ` set gs \<Longrightarrow> filter (\<lambda>g. guest_id g \<noteq> guest_id guest) gs = gs"
proof -
  assume "guest_id guest \<notin> guest_id ` set gs"
  then have "\<forall>x \<in> set gs. guest_id x \<noteq> guest_id guest"
    by (metis imageI)
  then show ?thesis by (simp add: filter_id_conv)
qed


lemma unassign_rooms_absent:
  "guest_id guest \<notin> guest_id ` set (concat (map assigned rs)) \<Longrightarrow>
   map assigned (map (\<lambda>room. if room_id room = source
                      then room\<lparr>assigned := filter (\<lambda>g. guest_id g \<noteq> guest_id guest) (assigned room)\<rparr>
                      else room) rs) = map assigned rs"
  by (induction rs) (simp_all add: filter_absent_id image_Un)

lemma unassign_rooms_mset:
  assumes "distinct (map guest_id (concat (map assigned rs)))"
    and "\<exists>room \<in> set rs. room_id room = source \<and> guest \<in> set (assigned room)"
  shows "mset (concat (map assigned (map (\<lambda>room. if room_id room = source
                      then room\<lparr>assigned := filter (\<lambda>g. guest_id g \<noteq> guest_id guest) (assigned room)\<rparr>
                      else room) rs))) + {#guest#}
         = mset (concat (map assigned rs))"
  using assms
proof (induction rs)
  case Nil
  then show ?case by simp
next
  case (Cons r rs)
  let ?F = "\<lambda>room. if room_id room = source
                      then room\<lparr>assigned := filter (\<lambda>g. guest_id g \<noteq> guest_id guest) (assigned room)\<rparr>
                      else room"
  from Cons.prems(1) have dr: "distinct (map guest_id (assigned r))"
    and drs: "distinct (map guest_id (concat (map assigned rs)))"
    and disj: "guest_id ` set (assigned r) \<inter> guest_id ` set (concat (map assigned rs)) = {}"
    by simp_all
  show ?case
  proof (cases "room_id r = source \<and> guest \<in> set (assigned r)")
    case True
    then have "guest_id guest \<in> guest_id ` set (assigned r)" by simp
    with disj have "guest_id guest \<notin> guest_id ` set (concat (map assigned rs))" by blast
    then have rest: "map assigned (map ?F rs) = map assigned rs"
      by (rule unassign_rooms_absent)
    from True mset_filter_other_ids [OF dr] 
    have "mset (filter (\<lambda>g. guest_id g \<noteq> guest_id guest) (assigned r)) + {#guest#} = mset (assigned r)"
      by simp
    with True rest show ?thesis by (simp del: map_map)
  next
    case False
    with Cons.prems(2) have ex: "\<exists>room \<in> set rs. room_id room = source \<and> guest \<in> set (assigned room)"
      by auto
    then have "guest \<in> set (concat (map assigned rs))" by auto
    then have "guest_id guest \<in> guest_id ` set (concat (map assigned rs))" by (rule imageI)
    with disj have "guest_id guest \<notin> guest_id ` set (assigned r)" by blast
    then have "assigned (?F r) = assigned r"
      by (simp add: filter_absent_id)
    with Cons.IH [OF drs ex] show ?thesis by (simp del: map_map)
  qed
qed

lemma unassign_conserves:
  assumes "located guest source s" and "distinct (map guest_id (all_guests s))"
  shows "mset (all_guests (unassign guest source s)) = mset (all_guests s)"
proof (cases "source = ''unassigned''")
  case True
  then show ?thesis by (simp add: unassign_from_pool all_guests_def)
next
  case False
  with assms(1) have ex: "\<exists>room \<in> set (rooms s). room_id room = source \<and> guest \<in> set (assigned room)"
    by (simp add: located_def)
  from assms(2) have "distinct (map guest_id (concat (map assigned (rooms s))))"
    by (simp add: all_guests_def)
  from unassign_rooms_mset [OF this ex] False show ?thesis
    by (simp add: unassign_from_room all_guests_def del: map_map)
qed

lemma reset_conserves: "mset (all_guests (reset s)) = mset (all_guests s)"
proof -
  have "concat (map assigned (map (\<lambda>room. room\<lparr>assigned := []\<rparr>) rs)) = []" for rs :: "Room list"
    by (induction rs) simp_all
  then show ?thesis by (simp add: reset_eq all_guests_def del: map_map)
qed


lemma mset_move_one:
  fixes M1 M0 A F :: "'a multiset"
  assumes "M1 + A = M0 + F" and "F + {#g#} = A"
  shows "M1 + {#g#} = M0"
proof -
  from assms have "M1 + (F + {#g#}) = M0 + F" by simp
  then have "(M1 + {#g#}) + F = M0 + F" by (simp only: ac_simps)
  then show ?thesis by (simp only: add_right_cancel)
qed

lemma room_by_id:
  assumes "distinct (map room_id rs)" and "room \<in> set rs" and "j < length rs"
    and "room_id (rs ! j) = room_id room"
  shows "rs ! j = room"
proof -
  from assms(1) have "inj_on room_id (set rs)" by (simp add: distinct_map)
  moreover from assms(3) have "rs ! j \<in> set rs" by simp
  ultimately show ?thesis using assms(2,4) by (simp add: inj_on_eq_iff)
qed

lemma assign_conserves:
  assumes run: "assign guest source targetRoomId s = Inr s'"
    and loc: "located guest source s"
    and guests: "distinct (map guest_id (all_guests s))"
    and ids: "distinct (map room_id (rooms s))"
    and other: "source \<noteq> targetRoomId"
  shows "mset (all_guests s') = mset (all_guests s)"
  using run
proof (cases rule: assign_Inr_cases)
  case (rejected i)
  then show ?thesis by (simp add: all_guests_def)
next
  case (accepted i)
  then have fits: "\<not> capacity (rooms s ! i) < currentOccupancy (assigned (rooms s ! i)) + occupancy guest"
    by simp
  note f = accepted(1)
  from findIndex_Some [OF f] have i: "i < length (rooms s)" and ti: "room_id (rooms s ! i) = targetRoomId"
    by simp_all
  let ?M = "\<lambda>rs. mset (concat (map assigned rs))"
  let ?ti = "(rooms s ! i)\<lparr>assigned := assigned (rooms s ! i) @ [guest]\<rparr>"
  show ?thesis
  proof (cases "source = ''unassigned''")
    case True
    from assign_from_pool [OF f fits] run True
    have s': "s' = s\<lparr>unassignedGuests := filter (\<lambda>g. guest_id g \<noteq> guest_id guest) (unassignedGuests s),
                  rooms := (rooms s)[i := ?ti], draggedGuest := None, warning := None\<rparr>"
      by simp
    from guests have "distinct (map guest_id (unassignedGuests s))"
      by (simp add: all_guests_def)
    moreover from loc True have "guest \<in> set (unassignedGuests s)" by (simp add: located_def)
    ultimately have pool: "mset (filter (\<lambda>g. guest_id g \<noteq> guest_id guest) (unassignedGuests s)) + {#guest#}
                     = mset (unassignedGuests s)"
      by (rule mset_filter_other_ids)
    from mset_concat_update [OF i, of assigned ?ti]
    have "?M ((rooms s)[i := ?ti]) = ?M (rooms s) + {#guest#}"
      by simp
    with pool [symmetric] s' show ?thesis
      by (simp add: all_guests_def)
  next
    case False
    with loc obtain room where room: "room \<in> set (rooms s)" "room_id room = source"
        "guest \<in> set (assigned room)"
      by (auto simp: located_def)
    then have "findIndex (\<lambda>r. room_id r = source) (rooms s) \<noteq> None"
      by (auto simp: findIndex_None)
    then obtain j where fj: "findIndex (\<lambda>r. room_id r = source) (rooms s) = Some j"
      by auto
    from findIndex_Some [OF fj] have j: "j < length (rooms s)" and sj: "room_id (rooms s ! j) = source"
      by simp_all
    from room_by_id [OF ids room(1) j] sj room(2) have rj: "rooms s ! j = room" by simp
    from sj ti other have ij: "i \<noteq> j" by auto
    let ?fj = "(rooms s ! j)\<lparr>assigned := filter (\<lambda>g. guest_id g \<noteq> guest_id guest) (assigned (rooms s ! j))\<rparr>"
    from assign_from_room [OF f fits False fj] run
    have s': "s' = s\<lparr>rooms := (rooms s)[j := ?fj, i := ?ti], draggedGuest := None, warning := None\<rparr>"
      by simp
    have "distinct (map guest_id (assigned (rooms s ! j)))"
    proof -
      from guests have "distinct (concat (map (map guest_id) (map assigned (rooms s))))"
        by (simp add: all_guests_def map_concat)
      then have "\<forall>ys \<in> set (map (map guest_id) (map assigned (rooms s))). distinct ys"
        by (simp only: distinct_concat_iff) blast
      with room(1) rj show ?thesis by simp
    qed
    moreover from rj room(3) have "guest \<in> set (assigned (rooms s ! j))" by simp
    ultimately
    have src: "mset (filter (\<lambda>g. guest_id g \<noteq> guest_id guest) (assigned (rooms s ! j))) + {#guest#}
                 = mset (assigned (rooms s ! j))"
      by (rule mset_filter_other_ids)
    from mset_concat_update [OF j, of assigned ?fj]
    have one: "?M ((rooms s)[j := ?fj]) + mset (assigned (rooms s ! j))
                 = ?M (rooms s) + mset (filter (\<lambda>g. guest_id g \<noteq> guest_id guest) (assigned (rooms s ! j)))"
      by simp
    from i have "i < length ((rooms s)[j := ?fj])" by simp
    from mset_concat_update [OF this, of assigned ?ti] ij
    have two: "?M ((rooms s)[j := ?fj, i := ?ti]) = ?M ((rooms s)[j := ?fj]) + {#guest#}"
      by simp
    from one src have "?M ((rooms s)[j := ?fj]) + {#guest#} = ?M (rooms s)"
      by (rule mset_move_one)
    with two s' show ?thesis
      by (simp add: all_guests_def)
  qed
qed


lemma conserved_ids_distinct:
  assumes "mset (all_guests s') = mset (all_guests s)"
  shows "mset (map guest_id (all_guests s')) = mset (map guest_id (all_guests s))"
    and "distinct (map guest_id (all_guests s')) = distinct (map guest_id (all_guests s))"
proof -
  from assms have "image_mset guest_id (mset (all_guests s')) = image_mset guest_id (mset (all_guests s))"
    by simp
  then show ids: "mset (map guest_id (all_guests s')) = mset (map guest_id (all_guests s))"
    by simp
  then show "distinct (map guest_id (all_guests s')) = distinct (map guest_id (all_guests s))"
    by (rule mset_eq_imp_distinct_iff)
qed

text \<open>
  Where the guests are conserved: in a state with unique guest ids and unique room ids,
  every operation on a guest dragged from where it sits keeps the multiset of guests, and
  with it the uniqueness of the ids, except a drop onto the guest's own room.
\<close>

lemma guests_conserved_off_own_room:
  assumes "distinct (map guest_id (all_guests s))" and "distinct (map room_id (rooms s))"
    and "apply_op op s = Inr s'"
    and "case op of Assign guest source targetRoomId \<Rightarrow> located guest source s \<and> source \<noteq> targetRoomId
          | Unassign guest source \<Rightarrow> located guest source s
          | _ \<Rightarrow> True"
  shows "mset (all_guests s') = mset (all_guests s) \<and> distinct (map guest_id (all_guests s'))"
proof -
  have "mset (all_guests s') = mset (all_guests s)"
  proof (cases op)
    case (Assign guest source targetRoomId)
    with assms show ?thesis by (simp add: assign_conserves)
  next
    case (Unassign guest source)
    with assms show ?thesis by (auto simp: unassign_conserves)
  next
    case AutoAssign
    with assms show ?thesis by (auto simp: autoAssign_all_guests)
  next
    case Reset
    with assms show ?thesis by (auto simp: reset_conserves)
  qed
  with conserved_ids_distinct(2) [OF this] assms(1) show ?thesis by simp
qed

text \<open>
  A drop onto the guest's own room, when the capacity check lets it pass: the room keeps
  its guests and gets the guest once more, and the pool is untouched.
\<close>

lemma assign_to_own_room:
  assumes "findIndex (\<lambda>r. room_id r = roomId) (rooms s) = Some i"
    and "roomId \<noteq> ''unassigned''"
    and "currentOccupancy (assigned (rooms s ! i)) + occupancy guest \<le> capacity (rooms s ! i)"
  shows "assign guest roomId roomId s =
           Inr (s\<lparr>rooms := (rooms s)[i := (rooms s ! i)\<lparr>assigned := assigned (rooms s ! i) @ [guest]\<rparr>],
                  draggedGuest := None, warning := None\<rparr>)"
proof -
  from assms(3)
  have "\<not> capacity (rooms s ! i) < currentOccupancy (assigned (rooms s ! i)) + occupancy guest"
    by simp
  from assign_from_room [OF assms(1) this assms(2) assms(1)] show ?thesis
    by simp
qed

lemma assign_to_own_room_grows:
  assumes "findIndex (\<lambda>r. room_id r = roomId) (rooms s) = Some i"
    and "roomId \<noteq> ''unassigned''"
    and "currentOccupancy (assigned (rooms s ! i)) + occupancy guest \<le> capacity (rooms s ! i)"
    and "assign guest roomId roomId s = Inr s'"
  shows "mset (all_guests s') = mset (all_guests s) + {#guest#}"
proof -
  from findIndex_Some [OF assms(1)] have i: "i < length (rooms s)" by simp
  from mset_concat_update [OF i, of assigned "(rooms s ! i)\<lparr>assigned := assigned (rooms s ! i) @ [guest]\<rparr>"]
  have "mset (concat (map assigned ((rooms s)[i := (rooms s ! i)\<lparr>assigned := assigned (rooms s ! i) @ [guest]\<rparr>])))
          = mset (concat (map assigned (rooms s))) + {#guest#}"
    by simp
  with assign_to_own_room [OF assms(1-3)] assms(4) show ?thesis
    by (auto simp: all_guests_def)
qed

text \<open>
  C1. The claim: every operation keeps the multiset of guest ids over the pool and all
  rooms' assigned lists, with every guest in exactly one place, also when a guest is
  assigned to the room it is already in. In that last case the code does otherwise:
  \<^verbatim>\<open>handleDropToRoom\<close> filters the guest out of the source room and then overwrites
  the same index with the room as it was before, extended by the guest, so the guest is
  in the room twice. On the page's initial state: Priya Sharma is dropped from the pool
  onto the Deluxe Room, picked up there and dropped onto the Deluxe Room again. The
  second drop passes the capacity check (1 + 1 \<le> 2), and afterwards the room's assigned
  list holds her twice: her id occurs twice among all guests where it occurred once.
\<close>

theorem assign_to_own_room_duplicates_guest:
  "assign priya ''unassigned'' ''r1'' demo_state
     = Inr (demo_state\<lparr>unassignedGuests := [rajesh, amit, sneha],
                        rooms := [deluxe\<lparr>assigned := [priya]\<rparr>, suite]\<rparr>) \<and>
   located priya ''r1'' (demo_state\<lparr>unassignedGuests := [rajesh, amit, sneha],
                                    rooms := [deluxe\<lparr>assigned := [priya]\<rparr>, suite]\<rparr>) \<and>
   assign priya ''r1'' ''r1'' (demo_state\<lparr>unassignedGuests := [rajesh, amit, sneha],
                                          rooms := [deluxe\<lparr>assigned := [priya]\<rparr>, suite]\<rparr>)
     = Inr (demo_state\<lparr>unassignedGuests := [rajesh, amit, sneha],
                        rooms := [deluxe\<lparr>assigned := [priya, priya]\<rparr>, suite]\<rparr>) \<and>
   map guest_id (all_guests (demo_state\<lparr>unassignedGuests := [rajesh, amit, sneha],
                        rooms := [deluxe\<lparr>assigned := [priya]\<rparr>, suite]\<rparr>))
     = [''1'', ''3'', ''4'', ''2''] \<and>
   map guest_id (all_guests (demo_state\<lparr>unassignedGuests := [rajesh, amit, sneha],
                        rooms := [deluxe\<lparr>assigned := [priya, priya]\<rparr>, suite]\<rparr>))
     = [''1'', ''3'', ''4'', ''2'', ''2'']"
  by (simp add: assign_def handleDropToRoom_def handleDragStart_def currentOccupancy_def
        located_def all_guests_def demo_defs)

section \<open>Grouping the guest directory\<close>

lemma grouped_empty: "grouped [] []"
  by (simp add: grouped_def)

lemma group_step_push:
  assumes "map_of acc key = Some members"
  shows "map fst (map (\<lambda>(k, v). if k = key then (k, v @ [guest]) else (k, v)) acc) = map fst acc"
  by (induction acc) (auto split: prod.splits)

lemma group_step_grouped:
  assumes step: "group_step acc guest = Inr acc'" and inv: "grouped acc seen"
  shows "grouped acc' (seen @ [guest])"
proof (cases "map_of acc (group_key guest)")
  case None
  with step have proto: "group_key guest \<notin> set object_prototype_names"
    and acc': "acc' = acc @ [(group_key guest, [guest])]"
    by (auto simp: group_step_def Let_def split: if_splits)
  from None have fresh: "group_key guest \<notin> fst ` set acc"
    by (simp add: map_of_eq_None_iff)
  with inv have unseen: "group_key guest \<notin> group_key ` set seen"
    by (simp add: grouped_def)
  then have new: "filter (\<lambda>g. group_key g = group_key guest) (seen @ [guest]) = [guest]"
    by (auto simp: filter_empty_conv image_iff)
  have old: "members = filter (\<lambda>g. group_key g = k) (seen @ [guest])"
    if "(k, members) \<in> set acc" for k members
  proof -
    from that have "k \<in> fst ` set acc" by (metis fst_conv imageI)
    with fresh have "k \<noteq> group_key guest" by blast
    moreover from that inv have "members = filter (\<lambda>g. group_key g = k) seen"
      by (auto simp: grouped_def)
    ultimately show ?thesis by simp
  qed
  show ?thesis
    unfolding grouped_def acc'
  proof (intro conjI)
    from inv fresh show "distinct (map fst (acc @ [(group_key guest, [guest])]))"
      by (simp add: grouped_def)
    from inv show "fst ` set (acc @ [(group_key guest, [guest])]) = group_key ` set (seen @ [guest])"
      by (simp add: grouped_def)
    show "\<forall>(k, members) \<in> set (acc @ [(group_key guest, [guest])]).
            members = filter (\<lambda>g. group_key g = k) (seen @ [guest])"
      using old new by auto
  qed
next
  case (Some members)
  let ?upd = "\<lambda>(k, v). if k = group_key guest then (k, v @ [guest]) else (k, v)"
  from Some step have acc': "acc' = map ?upd acc"
    by (simp add: group_step_def Let_def)
  have keys: "map fst acc' = map fst acc"
    unfolding acc' using Some by (rule group_step_push)
  from Some have "group_key guest \<in> fst ` set acc"
    by (metis map_of_eq_None_iff option.distinct(1))
  with inv have seen: "group_key guest \<in> group_key ` set seen"
    by (simp add: grouped_def)
  have "members' = filter (\<lambda>g. group_key g = k) (seen @ [guest])"
    if "(k, members') \<in> set acc'" for k members'
  proof -
    from that obtain v where v: "(k, v) \<in> set acc"
      and m: "members' = (if k = group_key guest then v @ [guest] else v)"
      unfolding acc' by (auto split: if_splits)
    from v inv have "v = filter (\<lambda>g. group_key g = k) seen"
      by (auto simp: grouped_def)
    with m show ?thesis by auto
  qed
  then have members: "\<forall>(k, members') \<in> set acc'. members' = filter (\<lambda>g. group_key g = k) (seen @ [guest])"
    by blast
  from keys have "set (map fst acc') = set (map fst acc)" by simp
  then have dom: "fst ` set acc' = fst ` set acc" by simp
  show ?thesis
    unfolding grouped_def
  proof (intro conjI)
    from inv keys show "distinct (map fst acc')" by (simp add: grouped_def)
    from inv seen dom show "fst ` set acc' = group_key ` set (seen @ [guest])"
      by (auto simp: grouped_def)
    from members show "\<forall>(k, members') \<in> set acc'. members' = filter (\<lambda>g. group_key g = k) (seen @ [guest])" .
  qed
qed

lemma reduce_groups_grouped:
  "reduce_groups acc guests = Inr acc' \<Longrightarrow> grouped acc seen \<Longrightarrow> grouped acc' (seen @ guests)"
proof (induction guests arbitrary: acc seen)
  case Nil
  then show ?case by simp
next
  case (Cons guest guests)
  from Cons.prems(1) obtain acc1 where step: "group_step acc guest = Inr acc1"
    and rest: "reduce_groups acc1 guests = Inr acc'"
    by (auto split: sum.splits)
  from group_step_grouped [OF step Cons.prems(2)] have "grouped acc1 (seen @ [guest])" .
  from Cons.IH [OF rest this] show ?case by simp
qed

lemma group_step_total:
  "group_key guest \<notin> set object_prototype_names \<Longrightarrow> \<exists>acc'. group_step acc guest = Inr acc'"
  by (cases "map_of acc (group_key guest)") (simp_all add: group_step_def Let_def)

lemma reduce_groups_total:
  "\<forall>g \<in> set guests. group_key g \<notin> set object_prototype_names \<Longrightarrow>
   \<exists>acc'. reduce_groups acc guests = Inr acc'"
proof (induction guests arbitrary: acc)
  case Nil
  then show ?case by simp
next
  case (Cons guest guests)
  then have "group_key guest \<notin> set object_prototype_names" by simp
  from group_step_total [OF this]
  obtain acc1 where step: "group_step acc guest = Inr acc1" ..
  from Cons.prems have "\<forall>g \<in> set guests. group_key g \<notin> set object_prototype_names" by simp
  from Cons.IH [OF this] obtain acc' where "reduce_groups acc1 guests = Inr acc'" ..
  with step show ?case by simp
qed

lemma object_values_mset: "mset (object_values acc) = mset (map snd acc)"
proof -
  have "mset (sort_key (\<lambda>p. dec_value (fst p)) (filter (\<lambda>p. is_array_index (fst p)) acc)
              @ filter (\<lambda>p. \<not> is_array_index (fst p)) acc) = mset acc"
    using multiset_partition [of "mset acc" "\<lambda>p. is_array_index (fst p)"] by simp
  then have "image_mset snd (mset (sort_key (\<lambda>p. dec_value (fst p)) (filter (\<lambda>p. is_array_index (fst p)) acc)
              @ filter (\<lambda>p. \<not> is_array_index (fst p)) acc)) = image_mset snd (mset acc)"
    by (simp only:)
  then show ?thesis
    unfolding object_values_def by (simp only: mset_map)
qed

lemma object_values_set: "set (object_values acc) = snd ` set acc"
proof -
  have "set_mset (mset (object_values acc)) = set_mset (mset (map snd acc))"
    by (simp only: object_values_mset)
  then show ?thesis by simp
qed


lemma mset_filter_disjoint:
  "\<forall>x. \<not> (P x \<and> Q x) \<Longrightarrow>
   mset (filter P xs) + mset (filter Q xs) = mset (filter (\<lambda>x. P x \<or> Q x) xs)"
  by (induction xs) auto

lemma mset_concat_groups:
  "distinct ks \<Longrightarrow>
   mset (concat (map (\<lambda>k. filter (\<lambda>g. f g = k) xs) ks)) = mset (filter (\<lambda>g. f g \<in> set ks) xs)"
proof (induction ks)
  case Nil
  then show ?case by simp
next
  case (Cons k ks)
  then have "\<forall>x. \<not> (f x = k \<and> f x \<in> set ks)" by auto
  from mset_filter_disjoint [OF this, of xs] Cons show ?case
    by (simp del: mset_filter)
qed

lemma mset_concat_perm: "mset xss = mset yss \<Longrightarrow> mset (concat xss) = mset (concat yss)"
proof -
  assume "mset xss = mset yss"
  then have "sum_mset (image_mset mset (mset xss)) = sum_mset (image_mset mset (mset yss))"
    by simp
  then have "sum_list (map mset xss) = sum_list (map mset yss)"
    by (simp only: sum_mset_sum_list [symmetric] mset_map)
  then show ?thesis by (simp only: mset_concat)
qed

lemma grouped_values:
  assumes "grouped acc guests"
  shows "map snd acc = map (\<lambda>k. filter (\<lambda>g. group_key g = k) guests) (map fst acc)"
proof -
  from assms have "\<forall>p \<in> set acc. snd p = filter (\<lambda>g. group_key g = fst p) guests"
    by (auto simp: grouped_def)
  then show ?thesis by (simp add: comp_def)
qed

lemma group_nonempty:
  "k \<in> group_key ` set guests \<Longrightarrow> filter (\<lambda>g. group_key g = k) guests \<noteq> []"
  by (auto simp: filter_empty_conv image_iff)

lemma group_inj:
  "inj_on (\<lambda>k. filter (\<lambda>g. group_key g = k) guests) (group_key ` set guests)"
proof (rule inj_onI)
  fix k k'
  assume k: "k \<in> group_key ` set guests" and k': "k' \<in> group_key ` set guests"
    and eq: "filter (\<lambda>g. group_key g = k) guests = filter (\<lambda>g. group_key g = k') guests"
  from group_nonempty [OF k] obtain g where "g \<in> set (filter (\<lambda>g. group_key g = k) guests)"
    by (cases "filter (\<lambda>g. group_key g = k) guests") auto
  moreover from this eq have "g \<in> set (filter (\<lambda>g. group_key g = k') guests)" by simp
  ultimately show "k = k'" by simp
qed

lemma grouped_object_values:
  assumes "grouped acc guests"
  shows "set (object_values acc) = (\<lambda>k. filter (\<lambda>g. group_key g = k) guests) ` group_key ` set guests"
    and "distinct (object_values acc)"
    and "mset (concat (object_values acc)) = mset guests"
proof -
  let ?F = "\<lambda>k. filter (\<lambda>g. group_key g = k) guests"
  from assms have keys: "set (map fst acc) = group_key ` set guests" and d: "distinct (map fst acc)"
    by (simp_all add: grouped_def)
  note vals = grouped_values [OF assms]
  have "set (object_values acc) = set (map snd acc)"
    by (simp add: object_values_set)
  also have "\<dots> = ?F ` set (map fst acc)"
    by (simp only: vals set_map)
  finally show "set (object_values acc) = ?F ` group_key ` set guests"
    by (simp only: keys)
  from group_inj [of guests] keys have "inj_on ?F (set (map fst acc))" by simp
  with d have "distinct (map ?F (map fst acc))"
    by (simp only: distinct_map simp_thms)
  then have "distinct (map snd acc)" by (simp only: vals)
  with mset_eq_imp_distinct_iff [OF object_values_mset [of acc]]
  show "distinct (object_values acc)" by simp
  have "mset (concat (object_values acc)) = mset (concat (map snd acc))"
    using object_values_mset by (rule mset_concat_perm)
  also have "\<dots> = mset (concat (map ?F (map fst acc)))"
    by (simp only: vals)
  also have "\<dots> = mset (filter (\<lambda>g. group_key g \<in> set (map fst acc)) guests)"
    using d by (rule mset_concat_groups)
  also have "\<dots> = mset guests"
    by (simp only: keys) simp
  finally show "mset (concat (object_values acc)) = mset guests" .
qed


text \<open>
  What the grouping does on every guest list whose keys are not names inherited from
  \<^verbatim>\<open>Object.prototype\<close>: it returns; there is one group per key, holding the guests
  of that key in fetch order; every guest is in exactly one group; every group has a
  head row, its first member, and the other members as detail rows; a guest without a
  family id is in the group keyed by its own id.
\<close>

lemma guestGroups_partition:
  assumes "\<forall>g \<in> set guests. group_key g \<notin> set object_prototype_names"
  shows "\<exists>groups. guestGroups guests = Inr groups \<and>
           set groups = (\<lambda>k. filter (\<lambda>g. group_key g = k) guests) ` group_key ` set guests \<and>
           distinct groups \<and>
           mset (concat groups) = mset guests \<and>
           (\<forall>g \<in> set guests. \<exists>!members. members \<in> set groups \<and> g \<in> set members) \<and>
           (\<forall>members \<in> set groups. \<exists>headGuest otherMembers.
               group_row members = Inr (headGuest, otherMembers) \<and>
               members = headGuest # otherMembers) \<and>
           (\<forall>g \<in> set guests. FamilyID g = [] \<longrightarrow>
               filter (\<lambda>h. group_key h = ID g) guests \<in> set groups)"
proof -
  let ?F = "\<lambda>k. filter (\<lambda>g. group_key g = k) guests"
  from reduce_groups_total [OF assms, of "[]"]
  obtain acc where acc: "groupedGuests guests = Inr acc"
    unfolding groupedGuests_def ..
  then have "reduce_groups [] guests = Inr acc" by (simp add: groupedGuests_def)
  from reduce_groups_grouped [OF this grouped_empty] have inv: "grouped acc guests" by simp
  let ?groups = "object_values acc"
  from acc have run: "guestGroups guests = Inr ?groups"
    by (simp add: guestGroups_def)
  note set = grouped_object_values(1) [OF inv]
  have one: "\<exists>!members. members \<in> set ?groups \<and> g \<in> set members" if g: "g \<in> set guests" for g
  proof (rule ex1I [of _ "?F (group_key g)"])
    from g show "?F (group_key g) \<in> set ?groups \<and> g \<in> set (?F (group_key g))"
      by (simp add: set)
  next
    fix members assume "members \<in> set ?groups \<and> g \<in> set members"
    then obtain k where "members = ?F k" and "g \<in> set (?F k)"
      by (auto simp: set)
    then show "members = ?F (group_key g)" by simp
  qed
  have row: "\<exists>headGuest otherMembers. group_row members = Inr (headGuest, otherMembers) \<and>
               members = headGuest # otherMembers" if m: "members \<in> set ?groups" for members
  proof -
    from m obtain k where "k \<in> group_key ` set guests" and "members = ?F k"
      by (auto simp: set)
    with group_nonempty [of k guests] have "members \<noteq> []" by simp
    then show ?thesis by (cases members) (simp_all add: group_row_def)
  qed
  have solo: "?F (ID g) \<in> set ?groups" if "g \<in> set guests" and "FamilyID g = []" for g
  proof -
    from that have "ID g = group_key g" by (simp add: group_key_def)
    with that(1) show ?thesis by (simp add: set)
  qed
  from run set grouped_object_values(2,3) [OF inv] one row solo
  show ?thesis by (intro exI [of _ ?groups]) simp
qed

text \<open>
  C9. The claim: every fetched guest list is partitioned into groups keyed by family id,
  or by the guest's own id when it has no family id, each guest in exactly one group, in
  fetch order, the first member as head row. The code does so unless a key is a name
  that the accumulator, the object literal \<^verbatim>\<open>{}\<close>, inherits. For a guest whose
  family id is \<^verbatim>\<open>constructor\<close> the read \<^verbatim>\<open>acc[key]\<close> finds the function
  inherited from \<^verbatim>\<open>Object.prototype\<close>; it is truthy, so no array is stored, and
  \<^verbatim>\<open>acc[key].push(guest)\<close> throws a TypeError: no group is rendered, also not for
  the other guests of the list. The same two guests with an ordinary family id form one
  group in fetch order.
\<close>

theorem grouping_throws_on_inherited_key:
  "guestGroups
     [\<lparr>ID = ''g1'', Name = ''Asha Rao'', Age = 34, Type = adult, Phone = ''555-0101'',
       Email = ''asha@example.org'', EventID = ''e1'', FamilyID = ''rao'',
       ArrivalDate = ''2026-01-10'', DepartureDate = ''2026-01-12''\<rparr>,
      \<lparr>ID = ''g2'', Name = ''Ravi Rao'', Age = 9, Type = child, Phone = ''555-0101'',
       Email = ''asha@example.org'', EventID = ''e1'', FamilyID = ''constructor'',
       ArrivalDate = ''2026-01-10'', DepartureDate = ''2026-01-12''\<rparr>]
     = Inl TypeError \<and>
   guestGroups
     [\<lparr>ID = ''g1'', Name = ''Asha Rao'', Age = 34, Type = adult, Phone = ''555-0101'',
       Email = ''asha@example.org'', EventID = ''e1'', FamilyID = ''rao'',
       ArrivalDate = ''2026-01-10'', DepartureDate = ''2026-01-12''\<rparr>,
      \<lparr>ID = ''g2'', Name = ''Ravi Rao'', Age = 9, Type = child, Phone = ''555-0101'',
       Email = ''asha@example.org'', EventID = ''e1'', FamilyID = ''rao'',
       ArrivalDate = ''2026-01-10'', DepartureDate = ''2026-01-12''\<rparr>]
     = Inr [[\<lparr>ID = ''g1'', Name = ''Asha Rao'', Age = 34, Type = adult, Phone = ''555-0101'',
              Email = ''asha@example.org'', EventID = ''e1'', FamilyID = ''rao'',
              ArrivalDate = ''2026-01-10'', DepartureDate = ''2026-01-12''\<rparr>,
             \<lparr>ID = ''g2'', Name = ''Ravi Rao'', Age = 9, Type = child, Phone = ''555-0101'',
              Email = ''asha@example.org'', EventID = ''e1'', FamilyID = ''rao'',
              ArrivalDate = ''2026-01-10'', DepartureDate = ''2026-01-12''\<rparr>]]"
  by (simp add: guestGroups_def groupedGuests_def group_step_def group_key_def Let_def
        object_prototype_names_def object_values_def is_array_index_def)

end
